theory Spec2Isabelle
  imports Main "HOL-Library.Word"
begin

unbundle bit_operations_syntax

section \<open>The HEX assembler and simulator\<close>

text \<open>
  A shallow embedding of \<^verbatim>\<open>asm.cpp\<close> (lexer interface, parser, label layout,
  binary emitter) and \<^verbatim>\<open>sim.cpp\<close> (loader, fetch/decode/execute loop, system
  calls).

  C++ \<^verbatim>\<open>int\<close> and \<^verbatim>\<open>uint32_t\<close> are 32-bit words. Where the source
  treats a value as signed (\<^verbatim>\<open>value < 0\<close>, \<^verbatim>\<open>value >= 16\<close>,
  \<^verbatim>\<open>value >> 4\<close> on an \<^verbatim>\<open>int\<close>) the model reads the word with \<open>sint\<close>
  and shifts with \<open>signed_drop_bit\<close>; arithmetic on \<^verbatim>\<open>int\<close> wraps
  around as two's complement. Values of type \<^verbatim>\<open>size_t\<close> (instruction sizes,
  nibble counts) are natural numbers.
\<close>

type_synonym cint = "32 word"
type_synonym u32 = "32 word"
type_synonym byte = "8 word"

subsection \<open>Tokens\<close>

datatype Token =
    NUMBER | MINUS | DATA | PROC | FUNC
  | LDAM | LDBM | STAM | LDAC | LDBC | LDAP | LDAI | LDBI | STAI
  | BR | BRZ | BRN | BRB | SVC | ADD | SUB | OPR
  | IDENTIFIER | NONE | END_OF_FILE

subsection \<open>Instruction encoding sizes\<close>

text \<open>
  \<^verbatim>\<open>numNibbles\<close>: the loop \<^verbatim>\<open>while (value >= 16) { value >>= 4; n++; }\<close>
  with its two variables as arguments.
\<close>

function numNibbles_loop :: "cint \<Rightarrow> nat \<Rightarrow> nat" where
  "numNibbles_loop v n =
     (if 16 \<le> sint v then numNibbles_loop (signed_drop_bit 4 v) (n + 1) else n)"
  by pat_completeness auto
termination
proof (relation "measure (\<lambda>(v, n). nat (sint v))")
  show "wf (measure (\<lambda>(v :: cint, n :: nat). nat (sint v)))"
    by simp
next
  fix v :: cint and n :: nat
  assume "16 \<le> sint v"
  then have "sint v div 16 < sint v"
    by linarith
  then have "sint (signed_drop_bit 4 v) < sint v"
    by (simp add: sint_signed_drop_bit_eq drop_bit_eq_div)
  with \<open>16 \<le> sint v\<close> show "((signed_drop_bit 4 v, n + 1), (v, n)) \<in> measure (\<lambda>(v, n). nat (sint v))"
    by simp
qed

declare numNibbles_loop.simps [simp del]

definition numNibbles :: "cint \<Rightarrow> nat" where
  "numNibbles v =
     (if v = 0 then 1
      else numNibbles_loop (if sint v < 0 then NOT v else v) 1)"


text \<open>
  The nibble count as the specification words it: 1 for 0, for a positive value the
  smallest \<open>n \<ge> 1\<close> with \<open>v < 16 ^ n\<close>, and for a negative value the same rule
  applied to the bitwise complement. These are the definitions the code is compared
  with; they are not taken from the code.
\<close>

definition nibbles_nonneg :: "int \<Rightarrow> nat" where
  "nibbles_nonneg v = (LEAST n. 1 \<le> n \<and> v < 16 ^ n)"

definition nibbles :: "int \<Rightarrow> nat" where
  "nibbles v =
     (if v = 0 then 1 else if 0 < v then nibbles_nonneg v else nibbles_nonneg (NOT v))"

definition spec_size :: "int \<Rightarrow> nat" where
  "spec_size v = (if v < 0 \<and> nibbles v = 1 then 2 else nibbles v)"

lemma nibbles_nonneg_ex: "\<exists>n. 1 \<le> n \<and> (v::int) < 16 ^ n"
proof -
  have "v < 16 ^ (Suc (nat v))"
  proof (cases "0 \<le> v")
    case True
    have "nat v < 2 ^ nat v" by (rule less_exp)
    also have "\<dots> \<le> 16 ^ nat v" by (rule power_mono) simp_all
    finally have "int (nat v) < int (16 ^ nat v)" by (simp only: of_nat_less_iff)
    then show ?thesis using True by simp
  next
    case False
    then show ?thesis by (smt (verit) zero_less_power)
  qed
  then show ?thesis by (intro exI[of _ "Suc (nat v)"]) simp
qed

lemma nibbles_nonneg_props: "1 \<le> nibbles_nonneg v \<and> v < 16 ^ nibbles_nonneg v"
  unfolding nibbles_nonneg_def using nibbles_nonneg_ex[of v] by (rule LeastI_ex)

lemma nibbles_nonneg_le: "1 \<le> n \<Longrightarrow> v < 16 ^ n \<Longrightarrow> nibbles_nonneg v \<le> n"
  unfolding nibbles_nonneg_def by (rule Least_le) simp

lemma nibbles_nonneg_small: "v < 16 \<Longrightarrow> nibbles_nonneg v = 1"
  using nibbles_nonneg_le[of 1 v] nibbles_nonneg_props[of v] by simp

lemma nibbles_nonneg_step:
  assumes "16 \<le> v"
  shows "nibbles_nonneg v = Suc (nibbles_nonneg (v div 16))"
proof (rule antisym)
  have p: "1 \<le> nibbles_nonneg (v div 16)" "v div 16 < 16 ^ nibbles_nonneg (v div 16)"
    using nibbles_nonneg_props[of "v div 16"] by auto
  from p(2) have "v < 16 ^ Suc (nibbles_nonneg (v div 16))"
    by simp
  then show "nibbles_nonneg v \<le> Suc (nibbles_nonneg (v div 16))"
    by (intro nibbles_nonneg_le) simp_all
next
  have q: "1 \<le> nibbles_nonneg v" "v < 16 ^ nibbles_nonneg v"
    using nibbles_nonneg_props[of v] by auto
  have "nibbles_nonneg v \<noteq> 1" using q(2) assms by auto
  with q(1) obtain m where m: "nibbles_nonneg v = Suc m" "1 \<le> m"
    by (cases "nibbles_nonneg v") auto
  from q(2) m(1) have "v div 16 < 16 ^ m" by simp
  then have "nibbles_nonneg (v div 16) \<le> m" using m(2) by (intro nibbles_nonneg_le)
  then show "Suc (nibbles_nonneg (v div 16)) \<le> nibbles_nonneg v" using m(1) by simp
qed

lemma numNibbles_loop_eq:
  "numNibbles_loop v n = n + (nibbles_nonneg (sint v) - 1)"
proof (induction v n rule: numNibbles_loop.induct)
  case (1 v n)
  show ?case
  proof (cases "16 \<le> sint v")
    case True
    have s: "sint (signed_drop_bit 4 v) = sint v div 16"
      by (simp add: sint_signed_drop_bit_eq drop_bit_eq_div)
    have "numNibbles_loop v n = numNibbles_loop (signed_drop_bit 4 v) (n + 1)"
      using True by (subst numNibbles_loop.simps) simp
    also have "\<dots> = n + 1 + (nibbles_nonneg (sint v div 16) - 1)"
      using "1.IH"[OF True] s by simp
    also have "\<dots> = n + (nibbles_nonneg (sint v) - 1)"
      using nibbles_nonneg_step[OF True] nibbles_nonneg_props[of "sint v div 16"] by simp
    finally show ?thesis .
  next
    case False
    then show ?thesis
      by (subst numNibbles_loop.simps) (simp add: nibbles_nonneg_small)
  qed
qed

lemma nibbles_nonneg_sint_le_8: "nibbles_nonneg (sint (v :: cint)) \<le> 8"
proof -
  have "sint v < 2 ^ 31" using sint_lt[of v] by simp
  then have "sint v < 16 ^ 8" by simp
  then show ?thesis by (intro nibbles_nonneg_le) simp_all
qed

lemma sint_NOT32: "sint (NOT v :: cint) = NOT (sint v)"
proof -
  have b: "- (2 ^ 31) \<le> sint v" "sint v < 2 ^ 31"
    using sint_ge[of v] sint_lt[of v] by simp_all
  have "sint (NOT v) = signed_take_bit 32 (NOT (sint v))"
    by (simp add: signed_not_eq)
  also have "\<dots> = NOT (sint v)"
    using b by (simp add: signed_take_bit_int_eq_self_iff not_int_def)
  finally show ?thesis .
qed

lemma numNibbles_eq_nibbles: "numNibbles v = nibbles (sint v)"
proof (cases "v = 0")
  case True
  then show ?thesis by (simp add: numNibbles_def nibbles_def)
next
  case False
  then have nz: "sint v \<noteq> 0" by (simp add: signed_eq_0_iff)
  show ?thesis
  proof (cases "sint v < 0")
    case True
    have "sint (NOT v) = NOT (sint v)" by (rule sint_NOT32)
    then show ?thesis
      using True False nibbles_nonneg_props[of "NOT (sint v)"]
      by (simp add: numNibbles_def nibbles_def numNibbles_loop_eq)
  next
    case False
    then show ?thesis
      using nz \<open>v \<noteq> 0\<close> nibbles_nonneg_props[of "sint v"]
      by (simp add: numNibbles_def nibbles_def numNibbles_loop_eq)
  qed
qed

lemma numNibbles_le_8: "numNibbles v \<le> 8"
proof -
  have "numNibbles_loop w 1 \<le> 8" for w
    using nibbles_nonneg_sint_le_8[of w] nibbles_nonneg_props[of "sint w"]
    by (simp add: numNibbles_loop_eq)
  then show ?thesis by (simp add: numNibbles_def)
qed

lemma numNibbles_ge_1: "1 \<le> numNibbles v"
  using nibbles_nonneg_props by (simp add: numNibbles_def numNibbles_loop_eq)

text \<open>
  \<^verbatim>\<open>instrLen\<close>: \<^verbatim>\<open>length\<close> starts at 1 and only grows, so the
  comparison \<^verbatim>\<open>length < numNibbles(...)\<close> (an \<^verbatim>\<open>int\<close> against a
  \<^verbatim>\<open>size_t\<close>) is a comparison of natural numbers.
\<close>

function instrLen_loop :: "cint \<Rightarrow> cint \<Rightarrow> nat \<Rightarrow> nat" where
  "instrLen_loop labelOffset byteOffset len =
     (if len < numNibbles (labelOffset - byteOffset - of_nat len)
      then instrLen_loop labelOffset byteOffset (len + 1)
      else len)"
  by pat_completeness auto
termination
proof (relation "measure (\<lambda>(labelOffset, byteOffset, len). 8 - len)")
  show "wf (measure (\<lambda>(labelOffset :: cint, byteOffset :: cint, len :: nat). 8 - len))"
    by simp
next
  fix labelOffset byteOffset :: cint and len :: nat
  assume "len < numNibbles (labelOffset - byteOffset - of_nat len)"
  then have "len < 8"
    using numNibbles_le_8[of "labelOffset - byteOffset - of_nat len"] by simp
  then show "((labelOffset, byteOffset, len + 1), (labelOffset, byteOffset, len))
      \<in> measure (\<lambda>(labelOffset, byteOffset, len). 8 - len)"
    by simp
qed

declare instrLen_loop.simps [simp del]

definition instrLen :: "cint \<Rightarrow> cint \<Rightarrow> nat" where
  "instrLen labelOffset byteOffset = instrLen_loop labelOffset byteOffset 1"

subsection \<open>Directives\<close>

text \<open>
  The class hierarchy under \<^verbatim>\<open>Directive\<close> as one datatype. The parser is the only
  producer of directives and always passes \<^verbatim>\<open>Token::DATA\<close>, \<^verbatim>\<open>Token::FUNC\<close>,
  \<^verbatim>\<open>Token::PROC\<close>, \<^verbatim>\<open>Token::IDENTIFIER\<close> and \<^verbatim>\<open>Token::OPR\<close> to the
  constructors of \<open>Data\<close>, \<open>Func\<close>, \<open>Proc\<close>, \<open>Label\<close> and \<open>InstrOp\<close>, so only
  \<open>InstrImm\<close> and \<open>InstrLabel\<close> carry their token. \<open>Label\<close> and \<open>InstrLabel\<close>
  carry the field \<^verbatim>\<open>labelValue\<close>, which no constructor initialises.
\<close>

datatype Directive =
    Data cint
  | Func string
  | Proc string
  | Label string cint
  | InstrImm Token cint
  | InstrLabel Token string cint
  | InstrOp Token

fun getToken :: "Directive \<Rightarrow> Token" where
  "getToken (Data v) = DATA"
| "getToken (Func name) = FUNC"
| "getToken (Proc name) = PROC"
| "getToken (Label name v) = IDENTIFIER"
| "getToken (InstrImm t v) = t"
| "getToken (InstrLabel t name v) = t"
| "getToken (InstrOp opcode) = OPR"

fun operandIsLabel :: "Directive \<Rightarrow> bool" where
  "operandIsLabel (InstrLabel t name v) = True"
| "operandIsLabel d = False"

definition immSize :: "cint \<Rightarrow> nat" where
  "immSize v = (if sint v < 0 \<and> numNibbles v = 1 then 2 else numNibbles v)"

fun getSize :: "Directive \<Rightarrow> nat" where
  "getSize (Data v) = 4"
| "getSize (Func name) = 0"
| "getSize (Proc name) = 0"
| "getSize (Label name v) = 0"
| "getSize (InstrImm t v) = immSize v"
| "getSize (InstrLabel t name v) = immSize v"
| "getSize (InstrOp opcode) = 1"

subsection \<open>Failures\<close>

text \<open>
  Every \<^verbatim>\<open>throw std::runtime_error(...)\<close> of the two programs is a constructor
  (their \<^verbatim>\<open>main\<close> catches the exception, prints \<^verbatim>\<open>Error: ...\<close> and
  exits with status 1). The last two constructors are not exceptions: they stand for
  the undefined behaviour of dereferencing a null pointer and of indexing
  \<^verbatim>\<open>std::array\<close> or a buffer outside its bounds, which nothing catches or reports.
\<close>

datatype error =
    Expected Token
  | UnrecognisedToken Token
  | UnexpectedOprOperand Token
  | UnexpectedInstrToken Token
  | UnexpectedOprInstrToken Token
  | InvalidInstruction
  | InvalidOPR u32
  | InvalidSyscall u32
  | NullDereference
  | OutOfBounds nat

fun reported :: "error \<Rightarrow> bool" where
  "reported NullDereference = False"
| "reported (OutOfBounds i) = False"
| "reported e = True"

subsection \<open>The shared enumerations\<close>

text \<open>
  \<^verbatim>\<open>Instructions.hpp\<close> and \<^verbatim>\<open>Hex.hpp\<close>, which declare the enumerations
  \<^verbatim>\<open>Instr\<close>, \<^verbatim>\<open>OprInstr\<close> and \<^verbatim>\<open>Syscall\<close>, are not among the sources.
  The enumerators are those the sources name; their numeric values are a parameter
  \<open>Enums\<close> of every function that casts an enumerator to or from an integer.
\<close>

datatype Instr =
    Instr_LDAM | Instr_LDBM | Instr_STAM | Instr_LDAC | Instr_LDBC | Instr_LDAP
  | Instr_LDAI | Instr_LDBI | Instr_STAI | Instr_BR | Instr_BRZ | Instr_BRN
  | Instr_PFIX | Instr_NFIX | Instr_OPR

datatype OprInstr = OprInstr_BRB | OprInstr_ADD | OprInstr_SUB | OprInstr_SVC

datatype Syscall = Syscall_EXIT | Syscall_WRITE | Syscall_READ

record Enums =
  InstrVal :: "Instr \<Rightarrow> cint"
  OprInstrVal :: "OprInstr \<Rightarrow> cint"
  SyscallVal :: "Syscall \<Rightarrow> u32"

text \<open>
  Modelled from the spec: the numbering of \<^verbatim>\<open>Instr\<close>, which the absent header
  \<^verbatim>\<open>Instructions.hpp\<close> fixes. The specification's table gives LDAM=0, LDBM=1,
  LDAC=2, LDBC=3, LDAP=4, LDAI=5, LDBI=6, STAI=7, BR=8, BRZ=9, BRN=10, STAM=11, NFIX=12
  (0xC), PFIX=13 (0xD), OPR=15, and lists the sub-opcodes as BRB, SVC, ADD, SUB and the
  system calls as EXIT, WRITE, READ, numbered here in that order. It serves as a
  concrete instance of \<open>Enums\<close>.
\<close>

fun specInstrVal :: "Instr \<Rightarrow> cint" where
  "specInstrVal Instr_LDAM = 0"
| "specInstrVal Instr_LDBM = 1"
| "specInstrVal Instr_LDAC = 2"
| "specInstrVal Instr_LDBC = 3"
| "specInstrVal Instr_LDAP = 4"
| "specInstrVal Instr_LDAI = 5"
| "specInstrVal Instr_LDBI = 6"
| "specInstrVal Instr_STAI = 7"
| "specInstrVal Instr_BR = 8"
| "specInstrVal Instr_BRZ = 9"
| "specInstrVal Instr_BRN = 10"
| "specInstrVal Instr_STAM = 11"
| "specInstrVal Instr_NFIX = 12"
| "specInstrVal Instr_PFIX = 13"
| "specInstrVal Instr_OPR = 15"

fun specOprInstrVal :: "OprInstr \<Rightarrow> cint" where
  "specOprInstrVal OprInstr_BRB = 0"
| "specOprInstrVal OprInstr_SVC = 1"
| "specOprInstrVal OprInstr_ADD = 2"
| "specOprInstrVal OprInstr_SUB = 3"

fun specSyscallVal :: "Syscall \<Rightarrow> u32" where
  "specSyscallVal Syscall_EXIT = 0"
| "specSyscallVal Syscall_WRITE = 1"
| "specSyscallVal Syscall_READ = 2"

definition specEnums :: Enums where
  "specEnums = \<lparr>InstrVal = specInstrVal, OprInstrVal = specOprInstrVal,
                 SyscallVal = specSyscallVal\<rparr>"

fun tokenToInstr :: "Token \<Rightarrow> error + Instr" where
  "tokenToInstr LDAM = Inr Instr_LDAM"
| "tokenToInstr LDBM = Inr Instr_LDBM"
| "tokenToInstr STAM = Inr Instr_STAM"
| "tokenToInstr LDAC = Inr Instr_LDAC"
| "tokenToInstr LDBC = Inr Instr_LDBC"
| "tokenToInstr LDAP = Inr Instr_LDAP"
| "tokenToInstr LDAI = Inr Instr_LDAI"
| "tokenToInstr LDBI = Inr Instr_LDBI"
| "tokenToInstr STAI = Inr Instr_STAI"
| "tokenToInstr BR = Inr Instr_BR"
| "tokenToInstr BRZ = Inr Instr_BRZ"
| "tokenToInstr BRN = Inr Instr_BRN"
| "tokenToInstr OPR = Inr Instr_OPR"
| "tokenToInstr token = Inl (UnexpectedInstrToken token)"

fun tokenToOprInstr :: "Token \<Rightarrow> error + OprInstr" where
  "tokenToOprInstr BRB = Inr OprInstr_BRB"
| "tokenToOprInstr SVC = Inr OprInstr_SVC"
| "tokenToOprInstr ADD = Inr OprInstr_ADD"
| "tokenToOprInstr SUB = Inr OprInstr_SUB"
| "tokenToOprInstr token = Inl (UnexpectedOprInstrToken token)"

definition instrToInstrOpc :: "Enums \<Rightarrow> Instr \<Rightarrow> cint" where
  "instrToInstrOpc E instr = InstrVal E instr"

definition tokenToInstrOpc :: "Enums \<Rightarrow> Token \<Rightarrow> error + cint" where
  "tokenToInstrOpc E token =
     (case tokenToInstr token of Inl e \<Rightarrow> Inl e | Inr instr \<Rightarrow> Inr (InstrVal E instr))"

definition tokenToOprInstrOpc :: "Enums \<Rightarrow> Token \<Rightarrow> error + cint" where
  "tokenToOprInstrOpc E token =
     (case tokenToOprInstr token of Inl e \<Rightarrow> Inl e | Inr opr \<Rightarrow> Inr (OprInstrVal E opr))"

fun getValue :: "Enums \<Rightarrow> Directive \<Rightarrow> error + cint" where
  "getValue E (Data v) = Inr v"
| "getValue E (Func name) = Inr 0"
| "getValue E (Proc name) = Inr 0"
| "getValue E (Label name v) = Inr v"
| "getValue E (InstrImm t v) = Inr v"
| "getValue E (InstrLabel t name v) = Inr v"
| "getValue E (InstrOp opcode) = tokenToOprInstrOpc E opcode"

subsection \<open>Lexer interface\<close>

text \<open>
  The parser sees the lexer through \<^verbatim>\<open>getNextToken\<close>, \<^verbatim>\<open>getLastToken\<close>,
  \<^verbatim>\<open>getIdentifier\<close> and \<^verbatim>\<open>getNumber\<close>. The model starts from the source text
  already cut into lexemes, as \<^verbatim>\<open>readToken\<close> cuts it: a word (letters, digits and
  underscores after a letter), a decimal number with its value as \<^verbatim>\<open>unsigned\<close>,
  a minus sign, or any other character. A word is looked up in the keyword table and
  is stored in \<^verbatim>\<open>identifier\<close> (here \<open>lexIdentifier\<close>) whether or not it is a keyword. At the end of the
  input every call returns \<^verbatim>\<open>END_OF_FILE\<close>.
\<close>

datatype lexeme = LWord string | LNumber u32 | LMinus | LOther

definition lookup :: "string \<Rightarrow> Token" where
  "lookup name =
     (if name = ''ADD'' then ADD
      else if name = ''BRN'' then BRN
      else if name = ''BR'' then BR
      else if name = ''BRB'' then BRB
      else if name = ''BRZ'' then BRZ
      else if name = ''DATA'' then DATA
      else if name = ''FUNC'' then FUNC
      else if name = ''LDAC'' then LDAC
      else if name = ''LDAI'' then LDAI
      else if name = ''LDAM'' then LDAM
      else if name = ''LDAP'' then LDAP
      else if name = ''LDBC'' then LDBC
      else if name = ''LDBI'' then LDBI
      else if name = ''LDBM'' then LDBM
      else if name = ''OPR'' then OPR
      else if name = ''PROC'' then PROC
      else if name = ''STAI'' then STAI
      else if name = ''STAM'' then STAM
      else if name = ''SUB'' then SUB
      else if name = ''SVC'' then SVC
      else IDENTIFIER)"

record Lexer =
  input :: "lexeme list"
  lexIdentifier :: string
  number :: u32
  lastToken :: Token

text \<open>
  The fields \<^verbatim>\<open>value\<close> (here \<open>number\<close>) and \<^verbatim>\<open>lastToken\<close> are not initialised
  by the constructor; the parser reads neither before \<^verbatim>\<open>getNextToken\<close> has
  assigned it.
\<close>

definition initLexer :: "lexeme list \<Rightarrow> Lexer" where
  "initLexer ls = \<lparr>input = ls, lexIdentifier = [], number = 0, lastToken = NONE\<rparr>"

definition getNextToken :: "Lexer \<Rightarrow> Lexer" where
  "getNextToken lx =
     (case input lx of
        [] \<Rightarrow> lx\<lparr>lastToken := END_OF_FILE\<rparr>
      | LWord w # rest \<Rightarrow> lx\<lparr>input := rest, lexIdentifier := w, lastToken := lookup w\<rparr>
      | LNumber n # rest \<Rightarrow> lx\<lparr>input := rest, number := n, lastToken := NUMBER\<rparr>
      | LMinus # rest \<Rightarrow> lx\<lparr>input := rest, lastToken := MINUS\<rparr>
      | LOther # rest \<Rightarrow> lx\<lparr>input := rest, lastToken := NONE\<rparr>)"

subsection \<open>Parser\<close>

definition expectLast :: "Token \<Rightarrow> Lexer \<Rightarrow> error + unit" where
  "expectLast token lx = (if token \<noteq> lastToken lx then Inl (Expected token) else Inr ())"

definition expectNext :: "Token \<Rightarrow> Lexer \<Rightarrow> error + Lexer" where
  "expectNext token lx =
     (let lx' = getNextToken lx
      in case expectLast token lx' of Inl e \<Rightarrow> Inl e | Inr u \<Rightarrow> Inr lx')"

definition parseInteger :: "Lexer \<Rightarrow> error + (cint \<times> Lexer)" where
  "parseInteger lx =
     (if lastToken lx = MINUS then
        (case expectNext NUMBER lx of
           Inl e \<Rightarrow> Inl e
         | Inr lx' \<Rightarrow> Inr (- number lx', lx'))
      else
        (case expectLast NUMBER lx of
           Inl e \<Rightarrow> Inl e
         | Inr u \<Rightarrow> Inr (number lx, lx)))"

definition parseIdentifier :: "Lexer \<Rightarrow> string \<times> Lexer" where
  "parseIdentifier lx = (let lx' = getNextToken lx in (lexIdentifier lx', lx'))"

text \<open>The constructor of \<^verbatim>\<open>InstrOp\<close>, which checks its operand.\<close>

definition newInstrOp :: "Token \<Rightarrow> error + Directive" where
  "newInstrOp opcode =
     (if opcode \<noteq> BRB \<and> opcode \<noteq> ADD \<and> opcode \<noteq> SUB \<and> opcode \<noteq> SVC
      then Inl (UnexpectedOprOperand opcode)
      else Inr (InstrOp opcode))"

text \<open>
  The last twelve cases of the \<^verbatim>\<open>switch\<close> in \<^verbatim>\<open>parseDirective\<close> share one body.
  \<open>uninit\<close> is the indeterminate content of a fresh \<^verbatim>\<open>labelValue\<close>.
\<close>

definition parseInstr :: "cint \<Rightarrow> Lexer \<Rightarrow> error + (Directive \<times> Lexer)" where
  "parseInstr uninit lx =
     (let opcode = lastToken lx; lx' = getNextToken lx
      in if lastToken lx' = IDENTIFIER
         then Inr (InstrLabel opcode (lexIdentifier lx') uninit, lx')
         else (case parseInteger lx' of
                 Inl e \<Rightarrow> Inl e
               | Inr (v, lx'') \<Rightarrow> Inr (InstrImm opcode v, lx'')))"

definition parseDirective :: "cint \<Rightarrow> Lexer \<Rightarrow> error + (Directive \<times> Lexer)" where
  "parseDirective uninit lx =
     (case lastToken lx of
        DATA \<Rightarrow>
          (case parseInteger (getNextToken lx) of
             Inl e \<Rightarrow> Inl e
           | Inr (v, lx') \<Rightarrow> Inr (Data v, lx'))
      | FUNC \<Rightarrow> (let (name, lx') = parseIdentifier lx in Inr (Func name, lx'))
      | PROC \<Rightarrow> (let (name, lx') = parseIdentifier lx in Inr (Proc name, lx'))
      | IDENTIFIER \<Rightarrow> Inr (Label (lexIdentifier lx) uninit, lx)
      | OPR \<Rightarrow>
          (let lx' = getNextToken lx
           in case newInstrOp (lastToken lx') of
                Inl e \<Rightarrow> Inl e
              | Inr d \<Rightarrow> Inr (d, lx'))
      | LDAM \<Rightarrow> parseInstr uninit lx
      | LDBM \<Rightarrow> parseInstr uninit lx
      | STAM \<Rightarrow> parseInstr uninit lx
      | LDAC \<Rightarrow> parseInstr uninit lx
      | LDBC \<Rightarrow> parseInstr uninit lx
      | LDAI \<Rightarrow> parseInstr uninit lx
      | LDBI \<Rightarrow> parseInstr uninit lx
      | STAI \<Rightarrow> parseInstr uninit lx
      | LDAP \<Rightarrow> parseInstr uninit lx
      | BRN \<Rightarrow> parseInstr uninit lx
      | BR \<Rightarrow> parseInstr uninit lx
      | BRZ \<Rightarrow> parseInstr uninit lx
      | _ \<Rightarrow> Inl (UnrecognisedToken (lastToken lx)))"

lemma input_getNextToken_le: "length (input (getNextToken lx)) \<le> length (input lx)"
  by (simp add: getNextToken_def split: list.splits lexeme.splits)

lemma input_getNextToken_less:
  "lastToken (getNextToken lx) \<noteq> END_OF_FILE \<Longrightarrow>
   length (input (getNextToken lx)) < length (input lx)"
  by (simp add: getNextToken_def split: list.splits lexeme.splits)

lemma input_parseInteger_le:
  "parseInteger lx = Inr (v, lx') \<Longrightarrow> length (input lx') \<le> length (input lx)"
  using input_getNextToken_le[of lx]
  by (auto simp: parseInteger_def expectNext_def expectLast_def Let_def
      split: if_splits sum.splits)

lemma input_parseInstr_le:
  "parseInstr uninit lx = Inr (d, lx') \<Longrightarrow> length (input lx') \<le> length (input lx)"
  using input_getNextToken_le[of lx] input_parseInteger_le[of "getNextToken lx"]
  by (auto simp: parseInstr_def Let_def split: if_splits sum.splits)

lemma input_parseDirective_le:
  "parseDirective uninit lx = Inr (d, lx') \<Longrightarrow> length (input lx') \<le> length (input lx)"
  using input_getNextToken_le[of lx] input_parseInteger_le[of "getNextToken lx"]
    input_parseInstr_le[of uninit lx d lx']
  by (cases "lastToken lx")
    (auto simp: parseDirective_def parseIdentifier_def Let_def split: sum.splits)

text \<open>
  \<^verbatim>\<open>parseProgram\<close>: the \<^verbatim>\<open>while\<close> loop with the lexer and the vector built so
  far as arguments. \<open>uninit\<close> gives the indeterminate \<^verbatim>\<open>labelValue\<close> of the
  directive created when that many lexemes are left.
\<close>

function parseProgram_loop ::
  "(nat \<Rightarrow> cint) \<Rightarrow> Lexer \<Rightarrow> Directive list \<Rightarrow> error + Directive list" where
  "parseProgram_loop uninit lx program =
     (let lx1 = getNextToken lx
      in if lastToken lx1 \<noteq> END_OF_FILE then
           (case parseDirective (uninit (length (input lx1))) lx1 of
              Inl e \<Rightarrow> Inl e
            | Inr (d, lx2) \<Rightarrow> parseProgram_loop uninit lx2 (program @ [d]))
         else Inr program)"
  by pat_completeness auto
termination
proof (relation "measure (\<lambda>(uninit, lx, program). length (input lx))")
  show "wf (measure (\<lambda>(uninit :: nat \<Rightarrow> cint, lx :: Lexer, program :: Directive list).
      length (input lx)))"
    by simp
next
  fix uninit :: "nat \<Rightarrow> cint" and lx lx1 lx2 :: Lexer and program :: "Directive list"
    and x :: "Directive \<times> Lexer" and d :: Directive
  assume a: "lx1 = getNextToken lx" "lastToken lx1 \<noteq> END_OF_FILE"
    "parseDirective (uninit (length (input lx1))) lx1 = Inr x" "(d, lx2) = x"
  from a(1,2) have "length (input lx1) < length (input lx)"
    using input_getNextToken_less[of lx] by simp
  moreover from a(3,4) have "length (input lx2) \<le> length (input lx1)"
    using input_parseDirective_le[of _ lx1 d lx2] by simp
  ultimately show "((uninit, lx2, program @ [d]), (uninit, lx, program))
      \<in> measure (\<lambda>(uninit, lx, program). length (input lx))"
    by simp
qed

declare parseProgram_loop.simps [simp del]

definition parseProgram :: "(nat \<Rightarrow> cint) \<Rightarrow> Lexer \<Rightarrow> error + Directive list" where
  "parseProgram uninit lx = parseProgram_loop uninit lx []"

subsection \<open>Label layout\<close>

text \<open>A \<^verbatim>\<open>for\<close> loop whose body may fail, over the list it ranges over.\<close>

fun foldE :: "('s \<Rightarrow> 'a \<Rightarrow> error + 's) \<Rightarrow> 'a list \<Rightarrow> 's \<Rightarrow> error + 's" where
  "foldE f [] s = Inr s"
| "foldE f (x # xs) s = (case f s x of Inl e \<Rightarrow> Inl e | Inr s' \<Rightarrow> foldE f xs s')"

text \<open>
  \<^verbatim>\<open>createLabelMap\<close>. A \<^verbatim>\<open>Label*\<close> points into the program vector, whose
  directives \<^verbatim>\<open>resolveLabels\<close> updates in place: the model keeps the index of the
  directive, and reads the label through the current program. A later label of the
  same name replaces an earlier one. \<^verbatim>\<open>dynamic_cast\<close> yields the null pointer
  for a directive of another class.
\<close>

definition addLabel ::
  "(string \<rightharpoonup> nat) \<times> nat \<Rightarrow> Directive \<Rightarrow> error + ((string \<rightharpoonup> nat) \<times> nat)" where
  "addLabel st directive =
     (let (labelMap, i) = st
      in if getToken directive = IDENTIFIER then
           (case directive of
              Label name v \<Rightarrow> Inr (labelMap(name \<mapsto> i), Suc i)
            | _ \<Rightarrow> Inl NullDereference)
         else Inr (labelMap, Suc i))"

definition createLabelMap :: "Directive list \<Rightarrow> error + (string \<rightharpoonup> nat)" where
  "createLabelMap program =
     (case foldE addLabel program (Map.empty, 0) of
        Inl e \<Rightarrow> Inl e
      | Inr (labelMap, n) \<Rightarrow> Inr labelMap)"

text \<open>
  \<^verbatim>\<open>labelMap[name]->getValue()\<close>: \<^verbatim>\<open>operator[]\<close> inserts a null pointer for
  a name the map does not hold, and the call dereferences it.
\<close>

definition labelValueAt :: "Directive list \<Rightarrow> nat \<Rightarrow> error + cint" where
  "labelValueAt program j =
     (if j < length program then
        (case program ! j of Label name v \<Rightarrow> Inr v | _ \<Rightarrow> Inl NullDereference)
      else Inl NullDereference)"

definition lookupLabel :: "(string \<rightharpoonup> nat) \<Rightarrow> Directive list \<Rightarrow> string \<Rightarrow> error + cint" where
  "lookupLabel labelMap program name =
     (case labelMap name of
        None \<Rightarrow> Inl NullDereference
      | Some j \<Rightarrow> labelValueAt program j)"

text \<open>
  The body of the \<^verbatim>\<open>for\<close> loop of \<^verbatim>\<open>resolveLabels\<close> for the directive at
  index \<open>i\<close>, statement by statement: alignment before \<open>Data\<close>, the label's
  value, the operand of an instruction that names a label, and the new offset. Both
  branches of \<^verbatim>\<open>if (offset >= 0)\<close> are the same statement.
\<close>

definition alignData :: "Directive \<Rightarrow> cint \<Rightarrow> cint" where
  "alignData directive byteOffset =
     (if getToken directive = DATA then
        (if byteOffset AND 3 \<noteq> 0 then byteOffset + (4 - (byteOffset AND 3)) else byteOffset)
      else byteOffset)"

definition setLabelValueAt :: "Directive list \<Rightarrow> nat \<Rightarrow> cint \<Rightarrow> error + Directive list" where
  "setLabelValueAt program i newValue =
     (case program ! i of
        Label name v \<Rightarrow> Inr (program[i := Label name newValue])
      | _ \<Rightarrow> Inl NullDereference)"

definition resolveOperand ::
  "(string \<rightharpoonup> nat) \<Rightarrow> Directive list \<Rightarrow> nat \<Rightarrow> cint \<Rightarrow> error + Directive list" where
  "resolveOperand labelMap program i byteOffset =
     (case program ! i of
        InstrLabel t name v \<Rightarrow>
          (case lookupLabel labelMap program name of
             Inl e \<Rightarrow> Inl e
           | Inr labelValue \<Rightarrow>
               (let offset = labelValue - byteOffset
                in Inr (program[i := InstrLabel t name
                          (offset - of_nat (instrLen labelValue byteOffset))])))
      | _ \<Rightarrow> Inl NullDereference)"

definition resolveDirective ::
  "(string \<rightharpoonup> nat) \<Rightarrow> Directive list \<times> cint \<Rightarrow> nat \<Rightarrow> error + (Directive list \<times> cint)" where
  "resolveDirective labelMap st i =
     (let (program, byteOffset0) = st;
          byteOffset = alignData (program ! i) byteOffset0
      in case (if getToken (program ! i) = IDENTIFIER
               then setLabelValueAt program i byteOffset else Inr program) of
           Inl e \<Rightarrow> Inl e
         | Inr program1 \<Rightarrow>
             (case (if operandIsLabel (program1 ! i)
                    then resolveOperand labelMap program1 i byteOffset else Inr program1) of
                Inl e \<Rightarrow> Inl e
              | Inr program2 \<Rightarrow>
                  Inr (program2, byteOffset + of_nat (getSize (program2 ! i)))))"

definition resolvePass ::
  "(string \<rightharpoonup> nat) \<Rightarrow> Directive list \<Rightarrow> error + (Directive list \<times> cint)" where
  "resolvePass labelMap program =
     foldE (resolveDirective labelMap) [0..<length program] (program, 0)"

text \<open>
  The \<^verbatim>\<open>while (lastSize != byteOffset)\<close> loop. Nothing bounds the number of its
  passes, so the result is an option: \<open>None\<close> when the loop runs forever.
\<close>

partial_function (option) resolveLoop ::
  "(string \<rightharpoonup> nat) \<Rightarrow> Directive list \<Rightarrow> cint \<Rightarrow> cint \<Rightarrow> (error + Directive list) option" where
  "resolveLoop labelMap program lastSize byteOffset =
     (if lastSize \<noteq> byteOffset then
        (case resolvePass labelMap program of
           Inl e \<Rightarrow> Some (Inl e)
         | Inr (program', byteOffset') \<Rightarrow> resolveLoop labelMap program' byteOffset byteOffset')
      else Some (Inr program))"

definition resolveLabels ::
  "(string \<rightharpoonup> nat) \<Rightarrow> Directive list \<Rightarrow> (error + Directive list) option" where
  "resolveLabels labelMap program = resolveLoop labelMap program (- 1) 0"

subsection \<open>Binary emitter\<close>

text \<open>
  \<^verbatim>\<open>outputFile.write(&value, 4)\<close> writes the four bytes of an \<^verbatim>\<open>int\<close> in the
  host's order, which is little-endian on the machines the simulator's byte fetch
  assumes.
\<close>

definition intBytes :: "cint \<Rightarrow> byte list" where
  "intBytes v = [ucast v, ucast (drop_bit 8 v), ucast (drop_bit 16 v), ucast (drop_bit 24 v)]"

text \<open>
  The two expressions assigned to \<^verbatim>\<open>char instrValue\<close>: the prefix byte for
  nibble \<open>i\<close> of the value, where \<open>opc\<close> is \<^verbatim>\<open>instrToInstrOpc(instr)\<close>, and the
  byte of the instruction itself, where \<open>opc\<close> is \<^verbatim>\<open>tokenToInstrOpc(token)\<close>.
  \<^verbatim>\<open>>>\<close> on a negative \<^verbatim>\<open>int\<close> is the arithmetic shift, and the conversion
  to \<^verbatim>\<open>char\<close> keeps the low eight bits.
\<close>

definition prefixByte :: "cint \<Rightarrow> cint \<Rightarrow> nat \<Rightarrow> byte" where
  "prefixByte opc v i = ucast (push_bit 4 opc OR (signed_drop_bit (i * 4) v AND 0xF))"

definition instrByte :: "cint \<Rightarrow> cint \<Rightarrow> byte" where
  "instrByte opc v = ucast (push_bit 4 (opc AND 0xF) OR (v AND 0xF))"

text \<open>
  The loop \<^verbatim>\<open>for (size_t i=size-1; i>0; i--)\<close> that writes the prefix bytes, most
  significant nibble first.
\<close>

fun emitPrefixes :: "cint \<Rightarrow> cint \<Rightarrow> nat \<Rightarrow> byte list" where
  "emitPrefixes opc v 0 = []"
| "emitPrefixes opc v (Suc i) = prefixByte opc v (Suc i) # emitPrefixes opc v i"

definition emitDirective ::
  "Enums \<Rightarrow> byte list \<times> cint \<Rightarrow> Directive \<Rightarrow> error + (byte list \<times> cint)" where
  "emitDirective E st directive =
     (let (out, byteOffset) = st; size = getSize directive
      in if getToken directive = DATA then
           (let paddingBytes = (if byteOffset AND 3 \<noteq> 0 then 4 - (byteOffset AND 3) else 0);
                out1 = out @ replicate (unat paddingBytes) 0;
                byteOffset1 = byteOffset + paddingBytes
            in case directive of
                 Data v \<Rightarrow> Inr (out1 @ take size (intBytes v), byteOffset1 + of_nat size)
               | _ \<Rightarrow> Inl NullDereference)
         else if size > 0 then
           (case getValue E directive of
              Inl e \<Rightarrow> Inl e
            | Inr v \<Rightarrow>
                (case tokenToInstrOpc E (getToken directive) of
                   Inl e \<Rightarrow> Inl e
                 | Inr opc \<Rightarrow>
                     (let instr = (if sint v < 0 then Instr_NFIX else Instr_PFIX);
                          prefixes = (if size > 1
                                      then emitPrefixes (instrToInstrOpc E instr) v (size - 1)
                                      else []);
                          instrValue = instrByte opc v
                      in Inr (out @ prefixes @ [instrValue],
                              byteOffset + of_nat (length prefixes) + 1))))
         else Inr (out, byteOffset))"

definition emitProgramBin :: "Enums \<Rightarrow> Directive list \<Rightarrow> error + byte list" where
  "emitProgramBin E program =
     (case foldE (emitDirective E) program ([], 0) of
        Inl e \<Rightarrow> Inl e
      | Inr (out, byteOffset) \<Rightarrow> Inr out)"

subsection \<open>The assembler's driver\<close>

text \<open>
  \<^verbatim>\<open>main\<close> without its options: parse, build the label map, resolve the labels,
  and only then open the output file and emit. \<open>None\<close> is a run that never leaves
  \<^verbatim>\<open>resolveLabels\<close>; \<open>Some (Inl e)\<close> a run that stops with \<open>e\<close> and writes no
  output; \<open>Some (Inr bytes)\<close> a run that writes \<open>bytes\<close>.
\<close>

definition assemble ::
  "Enums \<Rightarrow> (nat \<Rightarrow> cint) \<Rightarrow> lexeme list \<Rightarrow> (error + byte list) option" where
  "assemble E uninit ls =
     (case parseProgram uninit (initLexer ls) of
        Inl e \<Rightarrow> Some (Inl e)
      | Inr program \<Rightarrow>
          (case createLabelMap program of
             Inl e \<Rightarrow> Some (Inl e)
           | Inr labelMap \<Rightarrow>
               (case resolveLabels labelMap program of
                  None \<Rightarrow> None
                | Some (Inl e) \<Rightarrow> Some (Inl e)
                | Some (Inr program') \<Rightarrow> Some (emitProgramBin E program'))))"

declare resolveLoop.simps [code]

section \<open>The simulator\<close>

subsection \<open>State\<close>

text \<open>
  The members of \<^verbatim>\<open>class Processor\<close>. \<^verbatim>\<open>memory\<close> is an array of
  \<open>MEMORY_SIZE_WORDS\<close> words: the model keeps a function from indices and makes every
  access through \<open>memRead\<close> and \<open>memWrite\<close>, which give \<open>OutOfBounds\<close> for an
  index the array does not have (\<^verbatim>\<open>std::array::operator[]\<close> checks nothing, and
  the access is undefined behaviour). \<^verbatim>\<open>instrEnum\<close> is kept as the number it is
  cast from. \<^verbatim>\<open>Util.hpp\<close>, which declares the helpers \<^verbatim>\<open>output\<close> and
  \<^verbatim>\<open>input\<close> behind the system calls, is not among the sources: the state of the
  host's streams is a type \<open>io\<close> of which nothing is known, and the two helpers are
  the parameters \<open>hostOutput\<close> and \<open>hostInput\<close>.
\<close>

definition MEMORY_SIZE_WORDS :: nat where
  "MEMORY_SIZE_WORDS = 200000"

typedecl io

record Processor =
  pc :: u32
  areg :: u32
  breg :: u32
  oreg :: u32
  instr :: u32
  memory :: "nat \<Rightarrow> u32"
  fileIO :: io
  running :: bool
  tracing :: bool
  cycles :: "64 word"
  instrEnum :: u32

record Host =
  hostOutput :: "io \<Rightarrow> u32 \<Rightarrow> u32 \<Rightarrow> io"
  hostInput :: "io \<Rightarrow> u32 \<Rightarrow> u32 \<times> io"

text \<open>
  The constructor \<^verbatim>\<open>Processor() : running(true), tracing(false), cycles(0) {}\<close>
  assigns three members. The object is a local variable of \<^verbatim>\<open>main\<close>, so every
  other member of fundamental type keeps whatever its storage held: the argument
  \<open>u\<close> is that indeterminate content.
\<close>

definition newProcessor :: "Processor \<Rightarrow> Processor" where
  "newProcessor u = u\<lparr>running := True, tracing := False, cycles := 0\<rparr>"

definition setTracing :: "bool \<Rightarrow> Processor \<Rightarrow> Processor" where
  "setTracing b s = s\<lparr>tracing := b\<rparr>"

definition memRead :: "Processor \<Rightarrow> u32 \<Rightarrow> error + u32" where
  "memRead s idx =
     (if unat idx < MEMORY_SIZE_WORDS then Inr (memory s (unat idx))
      else Inl (OutOfBounds (unat idx)))"

definition memWrite :: "Processor \<Rightarrow> u32 \<Rightarrow> u32 \<Rightarrow> error + Processor" where
  "memWrite s idx v =
     (if unat idx < MEMORY_SIZE_WORDS then Inr (s\<lparr>memory := (memory s)(unat idx := v)\<rparr>)
      else Inl (OutOfBounds (unat idx)))"

subsection \<open>Loader\<close>

text \<open>
  \<^verbatim>\<open>file.read(reinterpret_cast<char*>(memory.data()), fileSize)\<close> copies the file
  over the first bytes of the array, byte \<open>k\<close> into lane \<open>k mod 4\<close> of word
  \<open>k div 4\<close> (little-endian host); the other bytes keep their content. Nothing
  compares \<^verbatim>\<open>fileSize\<close> with the size of the array.
\<close>

definition setByte :: "u32 \<Rightarrow> nat \<Rightarrow> byte \<Rightarrow> u32" where
  "setByte w lane b =
     (w AND NOT (push_bit (8 * lane) 0xFF)) OR push_bit (8 * lane) (ucast b)"

fun loadBytes :: "(nat \<Rightarrow> u32) \<Rightarrow> nat \<Rightarrow> byte list \<Rightarrow> (nat \<Rightarrow> u32)" where
  "loadBytes mem k [] = mem"
| "loadBytes mem k (b # bs) =
     loadBytes (mem(k div 4 := setByte (mem (k div 4)) (k mod 4) b)) (Suc k) bs"

definition load :: "byte list \<Rightarrow> Processor \<Rightarrow> error + Processor" where
  "load file s =
     (if length file \<le> 4 * MEMORY_SIZE_WORDS
      then Inr (s\<lparr>memory := loadBytes (memory s) 0 file\<rparr>)
      else Inl (OutOfBounds MEMORY_SIZE_WORDS))"

subsection \<open>System calls\<close>

text \<open>
  A \<^verbatim>\<open>switch\<close> over an enumeration cast from a number takes the first case whose
  enumerator has that number, and the \<^verbatim>\<open>default\<close> when none has.
\<close>

definition decodeSyscall :: "Enums \<Rightarrow> u32 \<Rightarrow> Syscall option" where
  "decodeSyscall E n =
     find (\<lambda>c. SyscallVal E c = n) [Syscall_EXIT, Syscall_WRITE, Syscall_READ]"

definition decodeOprInstr :: "Enums \<Rightarrow> u32 \<Rightarrow> OprInstr option" where
  "decodeOprInstr E n =
     find (\<lambda>c. OprInstrVal E c = n) [OprInstr_BRB, OprInstr_ADD, OprInstr_SUB, OprInstr_SVC]"

definition decodeInstr :: "Enums \<Rightarrow> u32 \<Rightarrow> Instr option" where
  "decodeInstr E n =
     find (\<lambda>c. InstrVal E c = n)
       [Instr_LDAM, Instr_LDBM, Instr_STAM, Instr_LDAC, Instr_LDBC, Instr_LDAP,
        Instr_LDAI, Instr_LDBI, Instr_STAI, Instr_BR, Instr_BRZ, Instr_BRN,
        Instr_PFIX, Instr_NFIX, Instr_OPR]"

definition syscall :: "Enums \<Rightarrow> Host \<Rightarrow> Processor \<Rightarrow> error + Processor" where
  "syscall E H s =
     (case memRead s 1 of
        Inl e \<Rightarrow> Inl e
      | Inr sp \<Rightarrow>
          (let spWordIndex = drop_bit 2 sp
           in case decodeSyscall E (areg s) of
                Some Syscall_EXIT \<Rightarrow> Inr (s\<lparr>running := False\<rparr>)
              | Some Syscall_WRITE \<Rightarrow>
                  (case memRead s (spWordIndex + 2) of
                     Inl e \<Rightarrow> Inl e
                   | Inr v \<Rightarrow>
                       (case memRead s (spWordIndex + 3) of
                          Inl e \<Rightarrow> Inl e
                        | Inr stream \<Rightarrow> Inr (s\<lparr>fileIO := hostOutput H (fileIO s) v stream\<rparr>)))
              | Some Syscall_READ \<Rightarrow>
                  (case memRead s (spWordIndex + 2) of
                     Inl e \<Rightarrow> Inl e
                   | Inr stream \<Rightarrow>
                       (let (v, io') = hostInput H (fileIO s) stream
                        in memWrite (s\<lparr>fileIO := io'\<rparr>) (spWordIndex + 1) v))
              | None \<Rightarrow> Inl (InvalidSyscall (areg s))))"

subsection \<open>Fetch, decode, execute\<close>

text \<open>
  The first four statements of the loop body of \<^verbatim>\<open>run\<close>: fetch the byte at
  \<^verbatim>\<open>pc\<close>, advance \<^verbatim>\<open>pc\<close>, add the low nibble to \<^verbatim>\<open>oreg\<close>, and keep the
  high nibble as the opcode.
\<close>

definition fetch :: "Processor \<Rightarrow> error + Processor" where
  "fetch s =
     (case memRead s (drop_bit 2 (pc s)) of
        Inl e \<Rightarrow> Inl e
      | Inr w \<Rightarrow>
          (let i = drop_bit (unat (push_bit 3 (pc s AND 0x3))) w AND 0xFF
           in Inr (s\<lparr>instr := i, pc := pc s + 1, oreg := oreg s OR (i AND 0xF),
                     instrEnum := drop_bit 4 i AND 0xF\<rparr>)))"

text \<open>
  The \<^verbatim>\<open>switch (instrEnum)\<close>, one equation per case in the order of the source,
  \<open>None\<close> being the \<^verbatim>\<open>default\<close>. In the case of \<^verbatim>\<open>OPR\<close> the inner
  \<^verbatim>\<open>switch\<close> is followed by \<^verbatim>\<open>oreg = 0; break;\<close>.
\<close>

definition executeOpr :: "Enums \<Rightarrow> Host \<Rightarrow> Processor \<Rightarrow> error + Processor" where
  "executeOpr E H s =
     (case decodeOprInstr E (oreg s) of
        Some OprInstr_BRB \<Rightarrow> Inr (s\<lparr>pc := breg s, oreg := 0\<rparr>)
      | Some OprInstr_ADD \<Rightarrow> Inr (s\<lparr>areg := areg s + breg s, oreg := 0\<rparr>)
      | Some OprInstr_SUB \<Rightarrow> Inr (s\<lparr>areg := areg s - breg s, oreg := 0\<rparr>)
      | Some OprInstr_SVC \<Rightarrow> syscall E H s
      | None \<Rightarrow> Inl (InvalidOPR (oreg s)))"

fun execute :: "Enums \<Rightarrow> Host \<Rightarrow> Instr option \<Rightarrow> Processor \<Rightarrow> error + Processor" where
  "execute E H (Some Instr_LDAM) s =
     (case memRead s (oreg s) of Inl e \<Rightarrow> Inl e | Inr v \<Rightarrow> Inr (s\<lparr>areg := v, oreg := 0\<rparr>))"
| "execute E H (Some Instr_LDBM) s =
     (case memRead s (oreg s) of Inl e \<Rightarrow> Inl e | Inr v \<Rightarrow> Inr (s\<lparr>breg := v, oreg := 0\<rparr>))"
| "execute E H (Some Instr_STAM) s =
     (case memWrite s (oreg s) (areg s) of Inl e \<Rightarrow> Inl e | Inr s' \<Rightarrow> Inr (s'\<lparr>oreg := 0\<rparr>))"
| "execute E H (Some Instr_LDAC) s = Inr (s\<lparr>areg := oreg s, oreg := 0\<rparr>)"
| "execute E H (Some Instr_LDBC) s = Inr (s\<lparr>breg := oreg s, oreg := 0\<rparr>)"
| "execute E H (Some Instr_LDAP) s = Inr (s\<lparr>areg := pc s + oreg s, oreg := 0\<rparr>)"
| "execute E H (Some Instr_LDAI) s =
     (case memRead s (drop_bit 2 (areg s) + oreg s) of
        Inl e \<Rightarrow> Inl e | Inr v \<Rightarrow> Inr (s\<lparr>areg := v, oreg := 0\<rparr>))"
| "execute E H (Some Instr_LDBI) s =
     (case memRead s (drop_bit 2 (breg s) + oreg s) of
        Inl e \<Rightarrow> Inl e | Inr v \<Rightarrow> Inr (s\<lparr>breg := v, oreg := 0\<rparr>))"
| "execute E H (Some Instr_STAI) s =
     (case memWrite s (drop_bit 2 (breg s) + oreg s) (areg s) of
        Inl e \<Rightarrow> Inl e | Inr s' \<Rightarrow> Inr (s'\<lparr>oreg := 0\<rparr>))"
| "execute E H (Some Instr_BR) s = Inr (s\<lparr>pc := pc s + oreg s, oreg := 0\<rparr>)"
| "execute E H (Some Instr_BRZ) s =
     Inr (s\<lparr>pc := (if areg s = 0 then pc s + oreg s else pc s), oreg := 0\<rparr>)"
| "execute E H (Some Instr_BRN) s =
     Inr (s\<lparr>pc := (if sint (areg s) < 0 then pc s + oreg s else pc s), oreg := 0\<rparr>)"
| "execute E H (Some Instr_PFIX) s = Inr (s\<lparr>oreg := push_bit 4 (oreg s)\<rparr>)"
| "execute E H (Some Instr_NFIX) s = Inr (s\<lparr>oreg := 0xFFFFFF00 OR push_bit 4 (oreg s)\<rparr>)"
| "execute E H (Some Instr_OPR) s =
     (case executeOpr E H s of Inl e \<Rightarrow> Inl e | Inr s' \<Rightarrow> Inr (s'\<lparr>oreg := 0\<rparr>))"
| "execute E H None s = Inl InvalidInstruction"

text \<open>
  One pass through the loop body. \<^verbatim>\<open>trace\<close> only prints, and every element of
  \<^verbatim>\<open>memory\<close> it prints is one the dispatched case reads as well; it is left out.
\<close>

definition step :: "Enums \<Rightarrow> Host \<Rightarrow> Processor \<Rightarrow> error + Processor" where
  "step E H s =
     (case fetch s of
        Inl e \<Rightarrow> Inl e
      | Inr s1 \<Rightarrow>
          (case execute E H (decodeInstr E (instrEnum s1)) s1 of
             Inl e \<Rightarrow> Inl e
           | Inr s2 \<Rightarrow> Inr (s2\<lparr>cycles := cycles s2 + 1\<rparr>)))"

partial_function (option) run ::
  "Enums \<Rightarrow> Host \<Rightarrow> Processor \<Rightarrow> (error + Processor) option" where
  "run E H s =
     (if running s then
        (case step E H s of
           Inl e \<Rightarrow> Some (Inl e)
         | Inr s' \<Rightarrow> run E H s')
      else Some (Inr s))"

declare run.simps [code]

text \<open>
  \<^verbatim>\<open>main\<close> of the simulator without the dump option: construct, set tracing,
  load, run.
\<close>

definition simulate ::
  "Enums \<Rightarrow> Host \<Rightarrow> Processor \<Rightarrow> bool \<Rightarrow> byte list \<Rightarrow> (error + Processor) option" where
  "simulate E H u trace file =
     (case load file (setTracing trace (newProcessor u)) of
        Inl e \<Rightarrow> Some (Inl e)
      | Inr s \<Rightarrow> run E H s)"

section \<open>Concrete instances\<close>

text \<open>
  A host whose streams do nothing, and a processor whose storage held zeros before
  construction, with a given memory.
\<close>

definition nullHost :: Host where
  "nullHost = \<lparr>hostOutput = (\<lambda>f v st. f), hostInput = (\<lambda>f st. (0, f))\<rparr>"

definition zeroStorage :: "(nat \<Rightarrow> u32) \<Rightarrow> Processor" where
  "zeroStorage mem =
     \<lparr>pc = 0, areg = 0, breg = 0, oreg = 0, instr = 0, memory = mem, fileIO = undefined,
      running = False, tracing = False, cycles = 0, instrEnum = 0\<rparr>"

text \<open>A memory whose first byte is \<^verbatim>\<open>OPR SVC\<close> under \<open>specEnums\<close>.\<close>

definition svcImage :: "nat \<Rightarrow> u32" where
  "svcImage = (\<lambda>i. 0)(0 := 0xF1)"

text \<open>
  What the specification says \<^verbatim>\<open>oreg\<close> holds after a step, from the state
  \<open>s1\<close> reached by the fetch: shifted by the prefixes, left as it is by
  \<^verbatim>\<open>OPR SVC\<close>, zero otherwise.
\<close>

definition spec_oreg_after :: "Enums \<Rightarrow> Processor \<Rightarrow> u32" where
  "spec_oreg_after E s1 =
     (let op = decodeInstr E (instrEnum s1)
      in if op = Some Instr_PFIX then push_bit 4 (oreg s1)
         else if op = Some Instr_NFIX then 0xFFFFFF00 OR push_bit 4 (oreg s1)
         else if op = Some Instr_OPR \<and> decodeOprInstr E (oreg s1) = Some OprInstr_SVC
              then oreg s1
         else 0)"

text \<open>
  The enumerators of \<^verbatim>\<open>Instr\<close> that the \<^verbatim>\<open>switch\<close> of \<^verbatim>\<open>run\<close> names.
  They label the cases of one \<^verbatim>\<open>switch\<close>, so their values are distinct, and the
  simulator takes an opcode from four bits, so they are below 16: \<open>validEnums\<close>.
\<close>

definition allInstr :: "Instr list" where
  "allInstr =
     [Instr_LDAM, Instr_LDBM, Instr_STAM, Instr_LDAC, Instr_LDBC, Instr_LDAP,
      Instr_LDAI, Instr_LDBI, Instr_STAI, Instr_BR, Instr_BRZ, Instr_BRN,
      Instr_PFIX, Instr_NFIX, Instr_OPR]"

definition validEnums :: "Enums \<Rightarrow> bool" where
  "validEnums E =
     (list_all (\<lambda>i. InstrVal E i < 16) allInstr \<and> distinct (map (InstrVal E) allInstr))"

text \<open>The byte with \<open>hi\<close> in its high nibble and \<open>lo\<close> in its low nibble.\<close>

definition nibbleByte :: "cint \<Rightarrow> byte \<Rightarrow> byte" where
  "nibbleByte hi lo = push_bit 4 (ucast hi) OR lo"

definition zeroMemory :: "nat \<Rightarrow> u32" where
  "zeroMemory = (\<lambda>i. 0)"

text \<open>A state whose registers and stack-pointer slot lead every access out of range.\<close>

definition outOfRangeState :: Processor where
  "outOfRangeState =
     (zeroStorage ((\<lambda>i. 0)(1 := 0xFFFFFFF0)))
       \<lparr>areg := 0xFFFFFFF0, breg := 0xFFFFFFF0, oreg := 0xFFFFFFFF\<rparr>"

subsection \<open>Offsets of the resolved program\<close>

text \<open>
  The offsets that \<^verbatim>\<open>emitProgramText\<close> prints, one for each directive: the
  running offset after the alignment of \<open>Data\<close>, advanced by the size of each
  directive.
\<close>

fun emitProgramText_offsets :: "cint \<Rightarrow> Directive list \<Rightarrow> cint list" where
  "emitProgramText_offsets byteOffset [] = []"
| "emitProgramText_offsets byteOffset (directive # ds) =
     (let byteOffset' = alignData directive byteOffset
      in byteOffset' # emitProgramText_offsets (byteOffset' + of_nat (getSize directive)) ds)"

text \<open>
  The specification's third invariant of a resolved program: the displacement stored on
  every \<open>InstrLabel\<close> is the offset of its label minus the offset of the byte after the
  instruction, the offsets and the size being those of the resolved program.
\<close>

definition displacementsResolved :: "(string \<rightharpoonup> nat) \<Rightarrow> Directive list \<Rightarrow> bool" where
  "displacementsResolved labelMap program =
     (let offsets = emitProgramText_offsets 0 program
      in list_all
           (\<lambda>i. case program ! i of
                   InstrLabel t name v \<Rightarrow>
                     (case labelMap name of
                        None \<Rightarrow> False
                      | Some j \<Rightarrow>
                          v = offsets ! j - (offsets ! i + of_nat (getSize (program ! i))))
                 | _ \<Rightarrow> True)
           [0..<length program])"

subsection \<open>Parse errors as the specification lists them\<close>

text \<open>
  The token of a lexeme, and the conditions under which the specification has the
  parser raise an error, read off the token sequence of a source text. At statement
  position \<open>DATA\<close> is followed by a signed integer, \<open>FUNC\<close> and \<open>PROC\<close> by one
  token, \<open>OPR\<close> by a sub-opcode, an addressed opcode by an identifier or a signed
  integer, and an identifier stands alone. \<open>signedInteger\<close> gives whether a signed
  integer is missing and what follows it. With \<open>strict = False\<close> the only error at a
  signed integer is a \<open>MINUS\<close> not followed by \<open>NUMBER\<close>, as the claim words it;
  with \<open>strict = True\<close> a token that is neither \<open>NUMBER\<close> nor \<open>MINUS\<close> is an error
  as well.
\<close>

fun lexemeToken :: "lexeme \<Rightarrow> Token" where
  "lexemeToken (LWord w) = lookup w"
| "lexemeToken (LNumber n) = NUMBER"
| "lexemeToken LMinus = MINUS"
| "lexemeToken LOther = NONE"

definition addressed :: "Token \<Rightarrow> bool" where
  "addressed t \<longleftrightarrow>
     t \<in> {LDAM, LDBM, STAM, LDAC, LDBC, LDAI, LDBI, STAI, LDAP, BRN, BR, BRZ}"

definition subOpcode :: "Token \<Rightarrow> bool" where
  "subOpcode t \<longleftrightarrow> t \<in> {BRB, ADD, SUB, SVC}"

definition signedInteger :: "bool \<Rightarrow> Token list \<Rightarrow> bool \<times> Token list" where
  "signedInteger strict ts =
     (case ts of
        [] \<Rightarrow> (strict, [])
      | t # rest \<Rightarrow>
          if t = MINUS then
            (case rest of [] \<Rightarrow> (True, []) | u # rest' \<Rightarrow> (u \<noteq> NUMBER, rest'))
          else if t = NUMBER then (False, rest)
          else (strict, rest))"

definition specStatement :: "bool \<Rightarrow> Token \<Rightarrow> Token list \<Rightarrow> bool \<times> Token list" where
  "specStatement strict t ts =
     (if t = DATA then signedInteger strict ts
      else if t = FUNC \<or> t = PROC then (False, tl ts)
      else if t = IDENTIFIER then (False, ts)
      else if t = OPR then
        (case ts of [] \<Rightarrow> (True, []) | u # rest \<Rightarrow> (\<not> subOpcode u, rest))
      else if addressed t then
        (case ts of
           [] \<Rightarrow> signedInteger strict ts
         | u # rest \<Rightarrow> if u = IDENTIFIER then (False, rest) else signedInteger strict ts)
      else (True, ts))"

lemma length_signedInteger: "length (snd (signedInteger strict ts)) \<le> length ts"
  by (simp add: signedInteger_def split: list.splits)

lemma length_specStatement: "length (snd (specStatement strict t ts)) \<le> length ts"
  using length_signedInteger[of strict ts]
  by (cases ts) (auto simp: specStatement_def)

function specParseError :: "bool \<Rightarrow> Token list \<Rightarrow> bool" where
  "specParseError strict [] = False"
| "specParseError strict (t # ts) =
     (fst (specStatement strict t ts) \<or> specParseError strict (snd (specStatement strict t ts)))"
  by pat_completeness auto
termination
proof (relation "measure (\<lambda>(strict, ts). length ts)")
  show "wf (measure (\<lambda>(strict :: bool, ts :: Token list). length ts))"
    by simp
next
  fix strict :: bool and t :: Token and ts :: "Token list"
  show "((strict, snd (specStatement strict t ts)), (strict, t # ts))
      \<in> measure (\<lambda>(strict, ts). length ts)"
    using length_specStatement[of strict t ts] by simp
qed

subsection \<open>A program whose layout alternates\<close>

text \<open>
  A block of \<open>n\<close> instructions of eight bytes each (\<^verbatim>\<open>LDAC 268435456\<close>).
\<close>

definition pad8 :: "nat \<Rightarrow> Directive list" where
  "pad8 n = replicate n (InstrImm LDAC 0x10000000)"

text \<open>
  The program
  \<^verbatim>\<open>(253 bytes) BR far  back  BR near  (16 bytes)  near  (237 bytes)  BR back  (3839 bytes)  far\<close>
  with the contents of its six \<^verbatim>\<open>labelValue\<close> fields as parameters, in the order
  of the directives. The blocks are instructions with an immediate operand, whose size
  never changes.
\<close>

definition oscillating :: "cint \<Rightarrow> cint \<Rightarrow> cint \<Rightarrow> cint \<Rightarrow> cint \<Rightarrow> cint \<Rightarrow> Directive list" where
  "oscillating vFar lBack vNear lNear vBack lFar =
     pad8 31 @
     [InstrImm LDAC 0x10000, InstrLabel BR ''far'' vFar, Label ''back'' lBack,
      InstrLabel BR ''near'' vNear] @
     pad8 2 @
     [Label ''near'' lNear] @
     pad8 29 @
     [InstrImm LDAC 0x10000, InstrLabel BR ''back'' vBack] @
     pad8 479 @
     [InstrImm LDAC 0x1000000, Label ''far'' lFar]"

text \<open>
  The program as the parser leaves it when the fresh fields of the labels
  \<^verbatim>\<open>near\<close> and \<^verbatim>\<open>far\<close> hold zero. The other four fields are written
  in every pass before they are read, so they are left open.
\<close>

definition oscillatingProgram :: "cint \<Rightarrow> cint \<Rightarrow> cint \<Rightarrow> cint \<Rightarrow> Directive list" where
  "oscillatingProgram vFar lBack vNear vBack = oscillating vFar lBack vNear 0 vBack 0"

text \<open>The map that \<^verbatim>\<open>createLabelMap\<close> builds for it: the index of each label.\<close>

definition oscLabels :: "string \<rightharpoonup> nat" where
  "oscLabels = [''back'' \<mapsto> 33, ''near'' \<mapsto> 37, ''far'' \<mapsto> 549]"

text \<open>
  Every label an instruction names is in the map and is a \<open>Label\<close>: the lookup of
  \<^verbatim>\<open>resolveLabels\<close> succeeds for each \<open>InstrLabel\<close> of the program.
\<close>

definition labelsResolve :: "(string \<rightharpoonup> nat) \<Rightarrow> Directive list \<Rightarrow> bool" where
  "labelsResolve labelMap program =
     list_all (\<lambda>d. case d of
                  InstrLabel t name v \<Rightarrow>
                    (case lookupLabel labelMap program name of Inl e \<Rightarrow> False | Inr lv \<Rightarrow> True)
                | _ \<Rightarrow> True) program"

text \<open>
  The six fields after one pass over the program, from the two fields a pass reads
  before it writes them: the values of the labels \<^verbatim>\<open>near\<close> and \<^verbatim>\<open>far\<close>,
  which are referenced before they are defined. The label \<^verbatim>\<open>back\<close> is written
  before the branch to it reads it.
\<close>

definition oscNext :: "cint \<Rightarrow> cint \<Rightarrow> (cint \<times> cint \<times> cint \<times> cint \<times> cint \<times> cint)" where
  "oscNext lNear lFar =
     (let vFar = lFar - 253 - of_nat (instrLen lFar 253);
          lBack = 253 + of_nat (immSize vFar);
          vNear = lNear - lBack - of_nat (instrLen lNear lBack);
          lNear' = lBack + of_nat (immSize vNear) + 16;
          atBack = lNear' + 237;
          vBack = lBack - atBack - of_nat (instrLen lBack atBack);
          lFar' = atBack + of_nat (immSize vBack) + 3839
      in (vFar, lBack, vNear, lNear', vBack, lFar'))"

section \<open>Theorems\<close>

text \<open>
  C3. For every 32-bit integer \<open>v\<close>, the size in bytes of an \<open>InstrImm\<close> directive
  with immediate \<open>v\<close> is \<open>nibbles v\<close>, except that it is 2 when \<open>v < 0\<close> and
  \<open>nibbles v = 1\<close>; \<open>nibbles\<close> is the specification's nibble count (1 for 0, the
  smallest \<open>n \<ge> 1\<close> with \<open>v < 16 ^ n\<close> for positive \<open>v\<close>, the same rule on the
  complement for negative \<open>v\<close>).
\<close>

theorem InstrImm_getSize_spec:
  "getSize (InstrImm t v) = spec_size (sint v)"
  by (simp add: immSize_def spec_size_def numNibbles_eq_nibbles)


subsection \<open>The operand register after a step\<close>

lemma execute_oreg:
  assumes "execute E H op s = Inr s'"
  shows "oreg s' = (if op = Some Instr_PFIX then push_bit 4 (oreg s)
                    else if op = Some Instr_NFIX then 0xFFFFFF00 OR push_bit 4 (oreg s)
                    else 0)"
proof (cases op)
  case None
  with assms show ?thesis by simp
next
  case (Some i)
  with assms show ?thesis
    by (cases i) (auto simp: memWrite_def split: sum.splits if_splits)
qed

lemma fetch_svcImage:
  "fetch (newProcessor (zeroStorage svcImage)) =
     Inr ((newProcessor (zeroStorage svcImage))
            \<lparr>instr := 0xF1, pc := 1, oreg := 1, instrEnum := 0xF\<rparr>)"
  by (simp add: fetch_def memRead_def MEMORY_SIZE_WORDS_def zeroStorage_def svcImage_def
      newProcessor_def)

lemma step_svcImage:
  "step specEnums nullHost (newProcessor (zeroStorage svcImage)) =
     Inr ((newProcessor (zeroStorage svcImage))
            \<lparr>instr := 0xF1, pc := 1, oreg := 0, instrEnum := 0xF, running := False,
             cycles := 1\<rparr>)"
  by (simp add: step_def fetch_svcImage decodeInstr_def specEnums_def executeOpr_def
      decodeOprInstr_def syscall_def memRead_def MEMORY_SIZE_WORDS_def decodeSyscall_def)
    (simp add: zeroStorage_def newProcessor_def)

text \<open>
  C5, as amended. After every step that completes, \<^verbatim>\<open>oreg\<close> is 0 unless the
  dispatched opcode is \<^verbatim>\<open>PFIX\<close> or \<^verbatim>\<open>NFIX\<close>: \<^verbatim>\<open>PFIX\<close> leaves the
  pre-dispatch \<^verbatim>\<open>oreg\<close> (the one the fetch produced) shifted left by 4, and
  \<^verbatim>\<open>NFIX\<close> leaves \<^verbatim>\<open>0xFFFFFF00\<close> or-ed with that shift. \<^verbatim>\<open>OPR\<close> is no
  exception, whatever its sub-opcode.
\<close>

theorem step_oreg:
  assumes "step E H s = Inr s'"
  shows "\<exists>s1. fetch s = Inr s1 \<and>
           oreg s' =
             (if decodeInstr E (instrEnum s1) = Some Instr_PFIX then push_bit 4 (oreg s1)
              else if decodeInstr E (instrEnum s1) = Some Instr_NFIX
                   then 0xFFFFFF00 OR push_bit 4 (oreg s1)
              else 0)"
proof -
  from assms obtain s1 s2 where f: "fetch s = Inr s1"
    and e: "execute E H (decodeInstr E (instrEnum s1)) s1 = Inr s2"
    and s': "s' = s2\<lparr>cycles := cycles s2 + 1\<rparr>"
    by (auto simp: step_def split: sum.splits)
  from execute_oreg[OF e] s' f show ?thesis by simp
qed

theorem step_oreg_witness:
  "step specEnums nullHost (newProcessor (zeroStorage svcImage)) =
     Inr ((newProcessor (zeroStorage svcImage))
            \<lparr>instr := 0xF1, pc := 1, oreg := 0, instrEnum := 0xF, running := False,
             cycles := 1\<rparr>)
   \<and> (\<exists>s1. fetch (newProcessor (zeroStorage svcImage)) = Inr s1 \<and>
         decodeInstr specEnums (instrEnum s1) = Some Instr_OPR \<and>
         oreg ((newProcessor (zeroStorage svcImage))
            \<lparr>instr := 0xF1, pc := 1, oreg := 0, instrEnum := 0xF, running := False,
             cycles := 1\<rparr>) = 0)"
proof -
  have d: "decodeInstr specEnums 0xF = Some Instr_OPR"
    by (simp add: decodeInstr_def specEnums_def)
  from step_oreg[OF step_svcImage] show ?thesis
    unfolding step_svcImage fetch_svcImage by (simp add: d)
qed

text \<open>
  C5 as stated fails: a step that dispatches \<^verbatim>\<open>OPR\<close> with sub-opcode
  \<^verbatim>\<open>SVC\<close> (here the system call \<^verbatim>\<open>EXIT\<close>) starts from \<^verbatim>\<open>oreg = 1\<close>
  after the fetch and ends with \<^verbatim>\<open>oreg = 0\<close>, where the claim has it keep 1.
\<close>

theorem step_OPR_SVC_clears_oreg:
  "(case fetch (newProcessor (zeroStorage svcImage)) of
      Inl e \<Rightarrow> False
    | Inr s1 \<Rightarrow>
        decodeInstr specEnums (instrEnum s1) = Some Instr_OPR \<and>
        decodeOprInstr specEnums (oreg s1) = Some OprInstr_SVC \<and>
        spec_oreg_after specEnums s1 = 1 \<and>
        (case step specEnums nullHost (newProcessor (zeroStorage svcImage)) of
           Inl e \<Rightarrow> False
         | Inr s' \<Rightarrow> oreg s' = 0 \<and> oreg s' \<noteq> spec_oreg_after specEnums s1))"
proof -
  have d: "decodeInstr specEnums 0xF = Some Instr_OPR"
    by (simp add: decodeInstr_def specEnums_def)
  have o: "decodeOprInstr specEnums 1 = Some OprInstr_SVC"
    by (simp add: decodeOprInstr_def specEnums_def)
  show ?thesis
    unfolding step_svcImage fetch_svcImage by (simp add: spec_oreg_after_def d o)
qed

subsection \<open>Encoding of immediates\<close>

lemma mask8: "(0xFF :: u32) = mask 8" by (simp add: mask_eq_exp_minus_1)
lemma mask4: "(0xF :: u32) = mask 4" by (simp add: mask_eq_exp_minus_1)
lemma mask4b: "(0xF :: byte) = mask 4" by (simp add: mask_eq_exp_minus_1)

lemma validEnums_less: "validEnums E \<Longrightarrow> InstrVal E i < 16"
  by (cases i) (simp_all add: validEnums_def allInstr_def)

lemma decodeInstr_InstrVal: "validEnums E \<Longrightarrow> decodeInstr E (InstrVal E i) = Some i"
  by (cases i) (auto simp: validEnums_def allInstr_def decodeInstr_def)

lemma validEnums_specEnums: "validEnums specEnums"
  by (simp add: validEnums_def allInstr_def specEnums_def)

lemma length_emitPrefixes: "length (emitPrefixes opc v n) = n"
  by (induction n) simp_all

lemma immSize_pos: "0 < immSize v"
  using numNibbles_ge_1[of v] by (simp add: immSize_def)

lemma emitDirective_InstrImm:
  assumes "tokenToInstr t = Inr i"
  shows "emitDirective E (out, off) (InstrImm t v) =
     Inr (out @ emitPrefixes (InstrVal E (if sint v < 0 then Instr_NFIX else Instr_PFIX)) v
                  (immSize v - 1)
              @ [instrByte (InstrVal E i) v],
          off + of_nat (immSize v))"
proof -
  have t: "t \<noteq> DATA" using assms by auto
  show ?thesis
  proof (cases "1 < immSize v")
    case True
    then obtain n where n: "immSize v = Suc n" by (cases "immSize v") auto
    show ?thesis
      using assms t True
      by (simp add: emitDirective_def tokenToInstrOpc_def instrToInstrOpc_def
          length_emitPrefixes n)
  next
    case False
    with immSize_pos[of v] have one: "immSize v = 1" by simp
    show ?thesis
      using assms t
      by (simp add: emitDirective_def tokenToInstrOpc_def instrToInstrOpc_def one)
  qed
qed

lemma numNibbles_16: "numNibbles 16 = 2"
  by (simp add: numNibbles_def numNibbles_loop.simps)

lemma numNibbles_minus_1: "numNibbles (- 1) = 1"
  by (simp add: numNibbles_def numNibbles_loop.simps)

lemma immSize_0: "immSize 0 = 1" by (simp add: immSize_def numNibbles_def)
lemma immSize_16: "immSize 16 = 2" by (simp add: immSize_def numNibbles_16)
lemma immSize_minus_1: "immSize (- 1) = 2" by (simp add: immSize_def numNibbles_minus_1)

lemma instrByte_nibbleByte:
  assumes "opc < 16"
  shows "instrByte opc v = nibbleByte opc (ucast v AND 0xF)"
proof -
  from assms have x: "opc AND mask 4 = opc" by (simp add: less_mask_eq)
  show ?thesis
    unfolding nibbleByte_def instrByte_def mask4 mask4b x
    by (rule bit_word_eqI) (auto simp: bit_simps dest: bit_imp_le_length)
qed

lemma prefixByte_nibbleByte:
  "prefixByte opc v i = nibbleByte opc (ucast (signed_drop_bit (i * 4) v) AND 0xF)"
  unfolding nibbleByte_def prefixByte_def mask4 mask4b
  by (rule bit_word_eqI) (auto simp: bit_simps dest: bit_imp_le_length)

lemma ucast_minus_1_nibble: "(ucast (- 1 :: cint) :: byte) AND 0xF = 0xF"
  unfolding mask4b by (rule bit_word_eqI) (auto simp: bit_simps)

lemma emit_LDAC_0:
  assumes "validEnums E"
  shows "emitProgramBin E [InstrImm LDAC 0] = Inr [nibbleByte (InstrVal E Instr_LDAC) 0]"
proof -
  have "emitProgramBin E [InstrImm LDAC 0] = Inr [instrByte (InstrVal E Instr_LDAC) 0]"
    by (simp add: emitProgramBin_def emitDirective_InstrImm[of LDAC Instr_LDAC] immSize_0)
  then show ?thesis
    by (simp add: instrByte_nibbleByte[OF validEnums_less[OF assms]])
qed

lemma emit_LDAC_16:
  assumes "validEnums E"
  shows "emitProgramBin E [InstrImm LDAC 16] =
     Inr [nibbleByte (InstrVal E Instr_PFIX) 1, nibbleByte (InstrVal E Instr_LDAC) 0]"
proof -
  have "emitProgramBin E [InstrImm LDAC 16] =
      Inr [prefixByte (InstrVal E Instr_PFIX) 16 (Suc 0), instrByte (InstrVal E Instr_LDAC) 16]"
    by (simp add: emitProgramBin_def emitDirective_InstrImm[of LDAC Instr_LDAC] immSize_16
        numeral_2_eq_2)
  then show ?thesis
    by (simp add: instrByte_nibbleByte[OF validEnums_less[OF assms]] prefixByte_nibbleByte)
qed

lemma emit_LDAC_minus_1:
  assumes "validEnums E"
  shows "emitProgramBin E [InstrImm LDAC (- 1)] =
     Inr [nibbleByte (InstrVal E Instr_NFIX) 0xF, nibbleByte (InstrVal E Instr_LDAC) 0xF]"
proof -
  have "emitProgramBin E [InstrImm LDAC (- 1)] =
      Inr [prefixByte (InstrVal E Instr_NFIX) (- 1) (Suc 0),
           instrByte (InstrVal E Instr_LDAC) (- 1)]"
    by (simp add: emitProgramBin_def emitDirective_InstrImm[of LDAC Instr_LDAC]
        immSize_minus_1 numeral_2_eq_2)
  then show ?thesis
    using ucast_minus_1_nibble
    by (simp add: instrByte_nibbleByte[OF validEnums_less[OF assms]] prefixByte_nibbleByte)
qed

lemma setByte_lane0: "setByte (setByte w 0 b0) (Suc 0) b1 AND 0xFF = ucast b0"
  unfolding setByte_def mask8
  by (rule bit_word_eqI) (auto simp: bit_simps dest: bit_imp_le_length)

lemma setByte_lane1: "drop_bit 8 (setByte (setByte w 0 b0) (Suc 0) b1) AND 0xFF = ucast b1"
  unfolding setByte_def mask8
  by (rule bit_word_eqI) (auto simp: bit_simps dest: bit_imp_le_length)

lemma nibbleByte_hi:
  assumes "opc < 16" "lo < 16"
  shows "drop_bit 4 (ucast (nibbleByte opc lo) :: u32) AND 0xF = opc"
proof -
  from assms have x: "opc = opc AND mask 4" "lo = lo AND mask 4"
    by (simp_all add: less_mask_eq)
  show ?thesis
    apply (subst (2) x(1))
    apply (subst x(2))
    unfolding nibbleByte_def mask4
    by (rule bit_word_eqI) (auto simp: bit_simps dest: bit_imp_le_length)
qed

lemma nibbleByte_lo:
  assumes "lo < 16"
  shows "(ucast (nibbleByte opc lo) :: u32) AND 0xF = ucast lo"
proof -
  from assms have x: "lo = lo AND mask 4" by (simp_all add: less_mask_eq)
  show ?thesis
    apply (subst x, subst (2) x)
    unfolding nibbleByte_def mask4
    by (rule bit_word_eqI) (auto simp: bit_simps dest: bit_imp_le_length)
qed

lemma load_two_bytes:
  "load [b0, b1] s0 =
     Inr (s0\<lparr>memory := (memory s0)(0 := setByte (setByte (memory s0 0) 0 b0) (Suc 0) b1)\<rparr>)"
  by (simp add: load_def MEMORY_SIZE_WORDS_def)

text \<open>
  A file of two bytes, \<^verbatim>\<open>NFIX\<close> with payload F and then the opcode \<open>i\<close> with
  payload F, run from \<^verbatim>\<open>pc = 0\<close> and \<^verbatim>\<open>oreg = 0\<close>: the first step and the
  second fetch.
\<close>

lemma NFIX_F_then:
  assumes v: "validEnums E" and pc0: "pc s0 = 0" and o0: "oreg s0 = 0"
    and l: "load [nibbleByte (InstrVal E Instr_NFIX) 0xF, nibbleByte (InstrVal E i) 0xF] s0
              = Inr s"
  shows "\<exists>s1 s2. step E H s = Inr s1 \<and> running s1 = running s0 \<and> fetch s1 = Inr s2 \<and>
           instrEnum s2 = InstrVal E i \<and> oreg s2 = 0xFFFFFFFF \<and>
           areg s2 = areg s0 \<and> breg s2 = breg s0"
proof -
  define b0 where "b0 = nibbleByte (InstrVal E Instr_NFIX) 0xF"
  define b1 where "b1 = nibbleByte (InstrVal E i) 0xF"
  define W where "W = setByte (setByte (memory s0 0) 0 b0) (Suc 0) b1"
  have s: "s = s0\<lparr>memory := (memory s0)(0 := W)\<rparr>"
    using l unfolding load_two_bytes W_def b0_def b1_def by simp
  have i0: "W AND 0xFF = ucast b0" unfolding W_def by (rule setByte_lane0)
  have i1: "drop_bit 8 W AND 0xFF = ucast b1" unfolding W_def by (rule setByte_lane1)
  have h0: "drop_bit 4 (ucast b0 :: u32) AND 0xF = InstrVal E Instr_NFIX"
    unfolding b0_def by (rule nibbleByte_hi[OF validEnums_less[OF v]]) simp
  have h1: "drop_bit 4 (ucast b1 :: u32) AND 0xF = InstrVal E i"
    unfolding b1_def by (rule nibbleByte_hi[OF validEnums_less[OF v]]) simp
  have l0: "(ucast b0 :: u32) AND 0xF = 0xF"
    unfolding b0_def using nibbleByte_lo[of 15 "InstrVal E Instr_NFIX"] by simp
  have l1: "(ucast b1 :: u32) AND 0xF = 0xF"
    unfolding b1_def using nibbleByte_lo[of 15 "InstrVal E i"] by simp
  define t1 where
    "t1 = s\<lparr>instr := ucast b0, pc := 1, oreg := 0xF, instrEnum := InstrVal E Instr_NFIX\<rparr>"
  have f1: "fetch s = Inr t1"
    unfolding t1_def using i0
    by (simp add: fetch_def memRead_def MEMORY_SIZE_WORDS_def s pc0 o0 h0 l0)
  define s1 where "s1 = t1\<lparr>oreg := 0xFFFFFFF0, cycles := cycles t1 + 1\<rparr>"
  have st: "step E H s = Inr s1"
    by (simp add: step_def f1 s1_def) (simp add: t1_def decodeInstr_InstrVal[OF v])
  have f2: "fetch s1 = Inr (s1\<lparr>instr := ucast b1, pc := 2, oreg := 0xFFFFFFFF,
      instrEnum := InstrVal E i\<rparr>)"
    using i1
    by (simp add: fetch_def memRead_def MEMORY_SIZE_WORDS_def s1_def t1_def s h1 l1)
  show ?thesis
    using st f2 by (simp add: s1_def t1_def s)
qed

text \<open>
  C4. For every numbering of the opcodes (distinct values below 16), the emitter writes
  for \<open>InstrImm LDAC 0\<close> one byte with the opcode of \<^verbatim>\<open>LDAC\<close> in the high nibble
  and 0 in the low nibble; for \<open>InstrImm LDAC 16\<close> the two bytes \<^verbatim>\<open>PFIX|1\<close>,
  \<^verbatim>\<open>LDAC|0\<close>; for \<open>InstrImm LDAC (-1)\<close> the two bytes \<^verbatim>\<open>NFIX|F\<close>,
  \<^verbatim>\<open>LDAC|F\<close>. When the simulator, with \<^verbatim>\<open>pc = 0\<close> and \<^verbatim>\<open>oreg = 0\<close>, has
  loaded these last two bytes, its first step succeeds and its second fetch decodes
  \<^verbatim>\<open>LDAC\<close> with \<^verbatim>\<open>oreg = 0xFFFFFFFF\<close>.
\<close>

theorem encoding_spot_check:
  assumes "validEnums E"
  shows "emitProgramBin E [InstrImm LDAC 0] = Inr [nibbleByte (InstrVal E Instr_LDAC) 0] \<and>
         emitProgramBin E [InstrImm LDAC 16] =
           Inr [nibbleByte (InstrVal E Instr_PFIX) 1, nibbleByte (InstrVal E Instr_LDAC) 0] \<and>
         emitProgramBin E [InstrImm LDAC (- 1)] =
           Inr [nibbleByte (InstrVal E Instr_NFIX) 0xF, nibbleByte (InstrVal E Instr_LDAC) 0xF] \<and>
         (\<forall>H s0 s. pc s0 = 0 \<and> oreg s0 = 0 \<and>
            load [nibbleByte (InstrVal E Instr_NFIX) 0xF, nibbleByte (InstrVal E Instr_LDAC) 0xF] s0
              = Inr s \<longrightarrow>
            (\<exists>s1 s2. step E H s = Inr s1 \<and> fetch s1 = Inr s2 \<and>
               decodeInstr E (instrEnum s2) = Some Instr_LDAC \<and> oreg s2 = 0xFFFFFFFF))"
proof (intro conjI allI impI)
  fix H s0 s
  assume a: "pc s0 = 0 \<and> oreg s0 = 0 \<and>
     load [nibbleByte (InstrVal E Instr_NFIX) 0xF, nibbleByte (InstrVal E Instr_LDAC) 0xF] s0
       = Inr s"
  then obtain s1 s2 where "step E H s = Inr s1" "fetch s1 = Inr s2"
    "instrEnum s2 = InstrVal E Instr_LDAC" "oreg s2 = 0xFFFFFFFF"
    using NFIX_F_then[OF assms, of s0 Instr_LDAC s H] by blast
  then show "\<exists>s1 s2. step E H s = Inr s1 \<and> fetch s1 = Inr s2 \<and>
               decodeInstr E (instrEnum s2) = Some Instr_LDAC \<and> oreg s2 = 0xFFFFFFFF"
    using decodeInstr_InstrVal[OF assms, of Instr_LDAC] by auto
qed (rule emit_LDAC_0[OF assms] emit_LDAC_16[OF assms] emit_LDAC_minus_1[OF assms])+

theorem encoding_spot_check_witness:
  "validEnums specEnums \<and>
   emitProgramBin specEnums [InstrImm LDAC 0] = Inr [0x20] \<and>
   emitProgramBin specEnums [InstrImm LDAC 16] = Inr [0xD1, 0x20] \<and>
   emitProgramBin specEnums [InstrImm LDAC (- 1)] = Inr [0xCF, 0x2F] \<and>
   (\<exists>s s1 s2. load [0xCF, 0x2F] (newProcessor (zeroStorage zeroMemory)) = Inr s \<and>
      step specEnums nullHost s = Inr s1 \<and> fetch s1 = Inr s2 \<and>
      decodeInstr specEnums (instrEnum s2) = Some Instr_LDAC \<and> oreg s2 = 0xFFFFFFFF)"
proof -
  have n: "nibbleByte (InstrVal specEnums Instr_LDAC) 0 = 0x20"
    "nibbleByte (InstrVal specEnums Instr_PFIX) 1 = 0xD1"
    "nibbleByte (InstrVal specEnums Instr_NFIX) 0xF = 0xCF"
    "nibbleByte (InstrVal specEnums Instr_LDAC) 0xF = 0x2F"
    by (simp_all add: nibbleByte_def specEnums_def)
  have z: "pc (newProcessor (zeroStorage zeroMemory)) = 0"
    "oreg (newProcessor (zeroStorage zeroMemory)) = 0"
    by (simp_all add: newProcessor_def zeroStorage_def)
  obtain s where s: "load [0xCF, 0x2F] (newProcessor (zeroStorage zeroMemory)) = Inr s"
    unfolding load_two_bytes by blast
  from encoding_spot_check[OF validEnums_specEnums] z s show ?thesis
    unfolding n using validEnums_specEnums by blast
qed

subsection \<open>Unchecked memory accesses\<close>

lemma run_running: "running s \<Longrightarrow> run E H s =
    (case step E H s of Inl e \<Rightarrow> Some (Inl e) | Inr s' \<Rightarrow> run E H s')"
  by (subst run.simps) simp

lemma run_NFIX_LDAM:
  "\<exists>s. load [0xCF, 0x0F] (setTracing False (newProcessor (zeroStorage mem))) = Inr s \<and>
       run specEnums nullHost s = Some (Inl (OutOfBounds 4294967295))"
proof -
  define s0 where "s0 = setTracing False (newProcessor (zeroStorage mem))"
  have n: "nibbleByte (InstrVal specEnums Instr_NFIX) 0xF = 0xCF"
    "nibbleByte (InstrVal specEnums Instr_LDAM) 0xF = 0x0F"
    by (simp_all add: nibbleByte_def specEnums_def)
  obtain s where s: "load [0xCF, 0x0F] s0 = Inr s"
    unfolding load_two_bytes by blast
  have z: "pc s0 = 0" "oreg s0 = 0" "running s0"
    by (simp_all add: s0_def newProcessor_def zeroStorage_def setTracing_def)
  have rs: "running s" using s z(3) unfolding load_two_bytes by auto
  from NFIX_F_then[OF validEnums_specEnums z(1,2), of Instr_LDAM s nullHost] s n
  obtain s1 s2 where st: "step specEnums nullHost s = Inr s1" and r1: "running s1"
    and f: "fetch s1 = Inr s2" and i: "instrEnum s2 = InstrVal specEnums Instr_LDAM"
    and o: "oreg s2 = 0xFFFFFFFF"
    using z(3) by auto
  have "execute specEnums nullHost (decodeInstr specEnums (instrEnum s2)) s2 =
      Inl (OutOfBounds 4294967295)"
    unfolding i decodeInstr_InstrVal[OF validEnums_specEnums]
    by (simp add: memRead_def o MEMORY_SIZE_WORDS_def)
  then have st2: "step specEnums nullHost s1 = Inl (OutOfBounds 4294967295)"
    by (simp add: step_def f)
  have "run specEnums nullHost s = Some (Inl (OutOfBounds 4294967295))"
    by (simp add: run_running[OF rs] st run_running[OF r1] st2)
  then show ?thesis
    using s unfolding s0_def by blast
qed

lemma simulate_NFIX_LDAM:
  "simulate specEnums nullHost (zeroStorage mem) False [0xCF, 0x0F] =
     Some (Inl (OutOfBounds 4294967295))"
  using run_NFIX_LDAM[of mem] by (auto simp: simulate_def)

text \<open>
  C9. None of the memory accesses of the interpreter and of the system calls compares
  its index with \<open>MEMORY_SIZE_WORDS\<close>: with an index at or beyond the size of the
  array, \<^verbatim>\<open>LDAM\<close>, \<^verbatim>\<open>LDBM\<close> and \<^verbatim>\<open>STAM\<close> index \<^verbatim>\<open>memory\<close> by
  \<^verbatim>\<open>oreg\<close>, \<^verbatim>\<open>LDAI\<close> by \<^verbatim>\<open>(areg >> 2) + oreg\<close>, \<^verbatim>\<open>LDBI\<close> and
  \<^verbatim>\<open>STAI\<close> by \<^verbatim>\<open>(breg >> 2) + oreg\<close>, and the system calls \<^verbatim>\<open>WRITE\<close> and
  \<^verbatim>\<open>READ\<close> by \<^verbatim>\<open>(memory[1] >> 2) + 2\<close> (and \<^verbatim>\<open>WRITE\<close> by
  \<^verbatim>\<open>(memory[1] >> 2) + 3\<close>), outside the array. There is a program that
  \<^verbatim>\<open>load\<close> accepts and whose execution by \<^verbatim>\<open>run\<close> does so: the two bytes
  \<^verbatim>\<open>NFIX F\<close>, \<^verbatim>\<open>LDAM F\<close> read word \<open>0xFFFFFFFF\<close>.
\<close>

theorem memory_accesses_unchecked:
  "(MEMORY_SIZE_WORDS \<le> unat (oreg s) \<longrightarrow>
      execute E H (Some Instr_LDAM) s = Inl (OutOfBounds (unat (oreg s))) \<and>
      execute E H (Some Instr_LDBM) s = Inl (OutOfBounds (unat (oreg s))) \<and>
      execute E H (Some Instr_STAM) s = Inl (OutOfBounds (unat (oreg s)))) \<and>
   (MEMORY_SIZE_WORDS \<le> unat (drop_bit 2 (areg s) + oreg s) \<longrightarrow>
      execute E H (Some Instr_LDAI) s = Inl (OutOfBounds (unat (drop_bit 2 (areg s) + oreg s)))) \<and>
   (MEMORY_SIZE_WORDS \<le> unat (drop_bit 2 (breg s) + oreg s) \<longrightarrow>
      execute E H (Some Instr_LDBI) s = Inl (OutOfBounds (unat (drop_bit 2 (breg s) + oreg s))) \<and>
      execute E H (Some Instr_STAI) s = Inl (OutOfBounds (unat (drop_bit 2 (breg s) + oreg s)))) \<and>
   (MEMORY_SIZE_WORDS \<le> unat (drop_bit 2 (memory s 1) + 2) \<and>
    (decodeSyscall E (areg s) = Some Syscall_WRITE \<or>
     decodeSyscall E (areg s) = Some Syscall_READ) \<longrightarrow>
      syscall E H s = Inl (OutOfBounds (unat (drop_bit 2 (memory s 1) + 2)))) \<and>
   (unat (drop_bit 2 (memory s 1) + 2) < MEMORY_SIZE_WORDS \<and>
    MEMORY_SIZE_WORDS \<le> unat (drop_bit 2 (memory s 1) + 3) \<and>
    decodeSyscall E (areg s) = Some Syscall_WRITE \<longrightarrow>
      syscall E H s = Inl (OutOfBounds (unat (drop_bit 2 (memory s 1) + 3)))) \<and>
   (\<exists>file t i.
      load file (setTracing False (newProcessor (zeroStorage mem))) = Inr t \<and>
      MEMORY_SIZE_WORDS \<le> i \<and>
      run specEnums nullHost t = Some (Inl (OutOfBounds i)) \<and>
      simulate specEnums nullHost (zeroStorage mem) False file = Some (Inl (OutOfBounds i)))"
proof -
  obtain t where t: "load [0xCF, 0x0F] (setTracing False (newProcessor (zeroStorage mem))) = Inr t"
    and r: "run specEnums nullHost t = Some (Inl (OutOfBounds 4294967295))"
    using run_NFIX_LDAM[of mem] by blast
  have m: "MEMORY_SIZE_WORDS \<le> 4294967295" by (simp add: MEMORY_SIZE_WORDS_def)
  have e: "\<exists>file t i.
      load file (setTracing False (newProcessor (zeroStorage mem))) = Inr t \<and>
      MEMORY_SIZE_WORDS \<le> i \<and>
      run specEnums nullHost t = Some (Inl (OutOfBounds i)) \<and>
      simulate specEnums nullHost (zeroStorage mem) False file = Some (Inl (OutOfBounds i))"
    using t m r simulate_NFIX_LDAM[of mem] by blast
  have l: "Suc 0 < MEMORY_SIZE_WORDS" by (simp add: MEMORY_SIZE_WORDS_def)
  have "execute E H (Some Instr_LDAM) s = Inl (OutOfBounds (unat (oreg s)))"
    "execute E H (Some Instr_LDBM) s = Inl (OutOfBounds (unat (oreg s)))"
    "execute E H (Some Instr_STAM) s = Inl (OutOfBounds (unat (oreg s)))"
    if "MEMORY_SIZE_WORDS \<le> unat (oreg s)"
    using that by (simp_all add: memRead_def memWrite_def)
  moreover have
    "execute E H (Some Instr_LDAI) s = Inl (OutOfBounds (unat (drop_bit 2 (areg s) + oreg s)))"
    if "MEMORY_SIZE_WORDS \<le> unat (drop_bit 2 (areg s) + oreg s)"
    using that by (simp add: memRead_def)
  moreover have
    "execute E H (Some Instr_LDBI) s = Inl (OutOfBounds (unat (drop_bit 2 (breg s) + oreg s)))"
    "execute E H (Some Instr_STAI) s = Inl (OutOfBounds (unat (drop_bit 2 (breg s) + oreg s)))"
    if "MEMORY_SIZE_WORDS \<le> unat (drop_bit 2 (breg s) + oreg s)"
    using that by (simp_all add: memRead_def memWrite_def)
  moreover have "syscall E H s = Inl (OutOfBounds (unat (drop_bit 2 (memory s 1) + 2)))"
    if "MEMORY_SIZE_WORDS \<le> unat (drop_bit 2 (memory s 1) + 2) \<and>
        (decodeSyscall E (areg s) = Some Syscall_WRITE \<or>
         decodeSyscall E (areg s) = Some Syscall_READ)"
    using that l by (auto simp: memRead_def memWrite_def syscall_def)
  moreover have "syscall E H s = Inl (OutOfBounds (unat (drop_bit 2 (memory s 1) + 3)))"
    if "unat (drop_bit 2 (memory s 1) + 2) < MEMORY_SIZE_WORDS \<and>
        MEMORY_SIZE_WORDS \<le> unat (drop_bit 2 (memory s 1) + 3) \<and>
        decodeSyscall E (areg s) = Some Syscall_WRITE"
    using that l by (auto simp: memRead_def memWrite_def syscall_def)
  ultimately show ?thesis using e by blast
qed

theorem memory_accesses_unchecked_witness:
  "execute specEnums nullHost (Some Instr_LDAM) outOfRangeState = Inl (OutOfBounds 4294967295) \<and>
   execute specEnums nullHost (Some Instr_LDBM) outOfRangeState = Inl (OutOfBounds 4294967295) \<and>
   execute specEnums nullHost (Some Instr_STAM) outOfRangeState = Inl (OutOfBounds 4294967295) \<and>
   execute specEnums nullHost (Some Instr_LDAI) outOfRangeState = Inl (OutOfBounds 1073741819) \<and>
   execute specEnums nullHost (Some Instr_LDBI) outOfRangeState = Inl (OutOfBounds 1073741819) \<and>
   execute specEnums nullHost (Some Instr_STAI) outOfRangeState = Inl (OutOfBounds 1073741819) \<and>
   syscall specEnums nullHost (outOfRangeState\<lparr>areg := 1\<rparr>) = Inl (OutOfBounds 1073741822) \<and>
   syscall specEnums nullHost (outOfRangeState\<lparr>areg := 2\<rparr>) = Inl (OutOfBounds 1073741822) \<and>
   (\<exists>file t i.
      load file (setTracing False (newProcessor (zeroStorage zeroMemory))) = Inr t \<and>
      200000 \<le> i \<and> run specEnums nullHost t = Some (Inl (OutOfBounds i)))"
proof -
  have a: "unat (oreg outOfRangeState) = 4294967295"
    "unat (drop_bit 2 (areg outOfRangeState) + oreg outOfRangeState) = 1073741819"
    "unat (drop_bit 2 (breg outOfRangeState) + oreg outOfRangeState) = 1073741819"
    by (simp_all add: outOfRangeState_def zeroStorage_def)
  have b: "unat (drop_bit 2 (memory (outOfRangeState\<lparr>areg := 1\<rparr>) 1) + 2) = 1073741822"
    "decodeSyscall specEnums (areg (outOfRangeState\<lparr>areg := 1\<rparr>)) = Some Syscall_WRITE"
    "unat (drop_bit 2 (memory (outOfRangeState\<lparr>areg := 2\<rparr>) 1) + 2) = 1073741822"
    "decodeSyscall specEnums (areg (outOfRangeState\<lparr>areg := 2\<rparr>)) = Some Syscall_READ"
    by (simp_all add: outOfRangeState_def zeroStorage_def decodeSyscall_def specEnums_def)
  have c: "execute specEnums nullHost (Some Instr_LDAM) outOfRangeState =
        Inl (OutOfBounds 4294967295) \<and>
      execute specEnums nullHost (Some Instr_LDBM) outOfRangeState =
        Inl (OutOfBounds 4294967295) \<and>
      execute specEnums nullHost (Some Instr_STAM) outOfRangeState =
        Inl (OutOfBounds 4294967295) \<and>
      execute specEnums nullHost (Some Instr_LDAI) outOfRangeState =
        Inl (OutOfBounds 1073741819) \<and>
      execute specEnums nullHost (Some Instr_LDBI) outOfRangeState =
        Inl (OutOfBounds 1073741819) \<and>
      execute specEnums nullHost (Some Instr_STAI) outOfRangeState =
        Inl (OutOfBounds 1073741819) \<and>
      syscall specEnums nullHost (outOfRangeState\<lparr>areg := 1\<rparr>) =
        Inl (OutOfBounds 1073741822) \<and>
      syscall specEnums nullHost (outOfRangeState\<lparr>areg := 2\<rparr>) =
        Inl (OutOfBounds 1073741822)"
    using memory_accesses_unchecked[of outOfRangeState specEnums nullHost]
      memory_accesses_unchecked[of "outOfRangeState\<lparr>areg := 1\<rparr>" specEnums nullHost]
      memory_accesses_unchecked[of "outOfRangeState\<lparr>areg := 2\<rparr>" specEnums nullHost]
    unfolding a b by (simp add: MEMORY_SIZE_WORDS_def)
  have "\<exists>file t i.
      load file (setTracing False (newProcessor (zeroStorage zeroMemory))) = Inr t \<and>
      MEMORY_SIZE_WORDS \<le> i \<and> run specEnums nullHost t = Some (Inl (OutOfBounds i))"
    using memory_accesses_unchecked[of outOfRangeState specEnums nullHost zeroMemory] by blast
  then have d: "\<exists>file t i.
      load file (setTracing False (newProcessor (zeroStorage zeroMemory))) = Inr t \<and>
      200000 \<le> i \<and> run specEnums nullHost t = Some (Inl (OutOfBounds i))"
    unfolding MEMORY_SIZE_WORDS_def .
  from c d show ?thesis by blast
qed

subsection \<open>The start state\<close>

lemma loadBytes_beyond:
  "k0 + length bs \<le> 4 * k \<Longrightarrow> loadBytes mem k0 bs k = mem k"
proof (induction bs arbitrary: mem k0)
  case Nil
  then show ?case by simp
next
  case (Cons b bs)
  from Cons.prems have "k0 div 4 \<noteq> k" by auto
  moreover from Cons.prems have "Suc k0 + length bs \<le> 4 * k" by simp
  ultimately show ?case using Cons.IH[of "Suc k0"] by simp
qed

lemma load_frame:
  assumes "load file s0 = Inr s"
  shows "pc s = pc s0 \<and> areg s = areg s0 \<and> breg s = breg s0 \<and> oreg s = oreg s0 \<and>
         running s = running s0 \<and>
         (\<forall>k. length file \<le> 4 * k \<longrightarrow> memory s k = memory s0 k)"
  using assms loadBytes_beyond[of 0 "file"]
  by (auto simp: load_def split: if_splits)

text \<open>
  C10. The constructor assigns \<^verbatim>\<open>running\<close>, \<^verbatim>\<open>tracing\<close> and \<^verbatim>\<open>cycles\<close>
  and leaves \<^verbatim>\<open>pc\<close>, \<^verbatim>\<open>areg\<close>, \<^verbatim>\<open>breg\<close>, \<^verbatim>\<open>oreg\<close> and \<^verbatim>\<open>memory\<close> as
  the storage \<open>u\<close> held them; \<^verbatim>\<open>setTracing\<close> and \<^verbatim>\<open>load\<close> leave the four
  registers and every memory word wholly beyond the file as they were. So execution
  starts from the registers of \<open>u\<close>, the first fetch reads the word at
  \<^verbatim>\<open>pc >> 2\<close> for the \<^verbatim>\<open>pc\<close> of \<open>u\<close>, and two storages that differ in
  \<^verbatim>\<open>pc\<close> alone fetch different first instructions from the same file. With
  \<^verbatim>\<open>pc = 0\<close> in \<open>u\<close> the first fetch reads word 0.
\<close>

theorem start_state_indeterminate:
  "pc (newProcessor u) = pc u \<and> areg (newProcessor u) = areg u \<and>
   breg (newProcessor u) = breg u \<and> oreg (newProcessor u) = oreg u \<and>
   memory (newProcessor u) = memory u \<and>
   running (newProcessor u) \<and> \<not> tracing (newProcessor u) \<and> cycles (newProcessor u) = 0 \<and>
   (load file (setTracing t (newProcessor u)) = Inr s \<longrightarrow>
      pc s = pc u \<and> areg s = areg u \<and> breg s = breg u \<and> oreg s = oreg u \<and>
      (\<forall>k. length file \<le> 4 * k \<longrightarrow> memory s k = memory u k) \<and>
      (\<forall>e. fetch s = Inl e \<longleftrightarrow> memRead s (drop_bit 2 (pc u)) = Inl e) \<and>
      (pc u = 0 \<longrightarrow> (\<exists>s1. fetch s = Inr s1 \<and> instr s1 = memory s 0 AND 0xFF))) \<and>
   (\<exists>u1 u2 s1 s2 t1 t2.
      u2 = u1\<lparr>pc := 1\<rparr> \<and>
      load [0x20, 0x30] (newProcessor u1) = Inr s1 \<and>
      load [0x20, 0x30] (newProcessor u2) = Inr s2 \<and>
      fetch s1 = Inr t1 \<and> fetch s2 = Inr t2 \<and> instr t1 = 0x20 \<and> instr t2 = 0x30)"
proof -
  have ctor: "pc (newProcessor u) = pc u \<and> areg (newProcessor u) = areg u \<and>
      breg (newProcessor u) = breg u \<and> oreg (newProcessor u) = oreg u \<and>
      memory (newProcessor u) = memory u \<and>
      running (newProcessor u) \<and> \<not> tracing (newProcessor u) \<and> cycles (newProcessor u) = 0"
    by (simp add: newProcessor_def)
  have ld: "pc s = pc u \<and> areg s = areg u \<and> breg s = breg u \<and> oreg s = oreg u \<and>
      (\<forall>k. length file \<le> 4 * k \<longrightarrow> memory s k = memory u k) \<and>
      (\<forall>e. fetch s = Inl e \<longleftrightarrow> memRead s (drop_bit 2 (pc u)) = Inl e) \<and>
      (pc u = 0 \<longrightarrow> (\<exists>s1. fetch s = Inr s1 \<and> instr s1 = memory s 0 AND 0xFF))"
    if l: "load file (setTracing t (newProcessor u)) = Inr s"
  proof -
    from load_frame[OF l] have fr: "pc s = pc u" "areg s = areg u" "breg s = breg u"
      "oreg s = oreg u" "\<forall>k. length file \<le> 4 * k \<longrightarrow> memory s k = memory u k"
      by (simp_all add: setTracing_def newProcessor_def)
    have "fetch s = Inl e \<longleftrightarrow> memRead s (drop_bit 2 (pc u)) = Inl e" for e
      by (auto simp: fetch_def fr(1) Let_def split: sum.splits)
    moreover have "\<exists>s1. fetch s = Inr s1 \<and> instr s1 = memory s 0 AND 0xFF" if "pc u = 0"
      using that by (simp add: fetch_def fr(1) memRead_def MEMORY_SIZE_WORDS_def Let_def)
    ultimately show ?thesis using fr by blast
  qed
  define u1 where "u1 = zeroStorage zeroMemory"
  define W :: u32 where "W = setByte (setByte 0 0 0x20) (Suc 0) 0x30"
  have w: "W AND 0xFF = 0x20" "drop_bit 8 W AND 0xFF = 0x30"
    using setByte_lane0[of 0 "0x20" "0x30"] setByte_lane1[of 0 "0x20" "0x30"]
    by (simp_all add: W_def)
  have l1: "load [0x20, 0x30] (newProcessor u1) =
      Inr ((newProcessor u1)\<lparr>memory := zeroMemory(0 := W)\<rparr>)"
    unfolding load_two_bytes by (simp add: u1_def zeroStorage_def newProcessor_def W_def zeroMemory_def)
  have l2: "load [0x20, 0x30] (newProcessor (u1\<lparr>pc := 1\<rparr>)) =
      Inr ((newProcessor (u1\<lparr>pc := 1\<rparr>))\<lparr>memory := zeroMemory(0 := W)\<rparr>)"
    unfolding load_two_bytes by (simp add: u1_def zeroStorage_def newProcessor_def W_def zeroMemory_def)
  have f1: "\<exists>t1. fetch ((newProcessor u1)\<lparr>memory := zeroMemory(0 := W)\<rparr>) = Inr t1 \<and> instr t1 = 0x20"
    using w(1)
    by (simp add: fetch_def memRead_def MEMORY_SIZE_WORDS_def u1_def zeroStorage_def
        newProcessor_def Let_def)
  have f2: "\<exists>t2. fetch ((newProcessor (u1\<lparr>pc := 1\<rparr>))\<lparr>memory := zeroMemory(0 := W)\<rparr>) = Inr t2 \<and> instr t2 = 0x30"
    using w(2)
    by (simp add: fetch_def memRead_def MEMORY_SIZE_WORDS_def u1_def zeroStorage_def
        newProcessor_def Let_def)
  have ex: "\<exists>u1 u2 s1 s2 t1 t2.
      u2 = u1\<lparr>pc := 1\<rparr> \<and>
      load [0x20, 0x30] (newProcessor u1) = Inr s1 \<and>
      load [0x20, 0x30] (newProcessor u2) = Inr s2 \<and>
      fetch s1 = Inr t1 \<and> fetch s2 = Inr t2 \<and> instr t1 = 0x20 \<and> instr t2 = 0x30"
    using l1 l2 f1 f2 by blast
  from ctor ld ex show ?thesis by blast
qed

theorem start_state_indeterminate_witness:
  "\<exists>s. load [0x20, 0x30] (setTracing False (newProcessor ((zeroStorage zeroMemory)\<lparr>pc := 5\<rparr>)))
         = Inr s \<and>
       pc s = 5 \<and> memory s 1 = 0 \<and>
       fetch s = Inr (s\<lparr>instr := 0, pc := 6, oreg := 0, instrEnum := 0\<rparr>)"
proof -
  define u where "u = (zeroStorage zeroMemory)\<lparr>pc := 5\<rparr>"
  obtain s where s: "load [0x20, 0x30] (setTracing False (newProcessor u)) = Inr s"
    unfolding load_two_bytes by blast
  from start_state_indeterminate[of u "[0x20, 0x30]" False s] s
  have p: "pc s = 5" "oreg s = 0" and m: "memory s 1 = memory u 1"
    by (simp_all add: u_def zeroStorage_def)
  have m1: "memory s 1 = 0" using m by (simp add: u_def zeroStorage_def zeroMemory_def)
  then have m2: "memory s (Suc 0) = 0" by simp
  have "fetch s = Inr (s\<lparr>instr := 0, pc := 6, oreg := 0, instrEnum := 0\<rparr>)"
    by (simp add: fetch_def memRead_def MEMORY_SIZE_WORDS_def p m2 Let_def)
  with s p m1 show ?thesis unfolding u_def by blast
qed

subsection \<open>A branch to a label at its own address\<close>

lemma parse_self_reference:
  "parseProgram uninit (initLexer [LWord ''foo'', LWord ''BR'', LWord ''foo'']) =
     Inr [Label ''foo'' (uninit 2), InstrLabel BR ''foo'' (uninit 1)]"
  by (simp add: parseProgram_def parseProgram_loop.simps initLexer_def getNextToken_def
      lookup_def parseDirective_def parseInstr_def Let_def)
    (simp add: numeral_2_eq_2)

lemma labelMap_self_reference:
  "createLabelMap [Label ''foo'' a, InstrLabel BR ''foo'' b] = Inr [''foo'' \<mapsto> 0]"
  by (simp add: createLabelMap_def addLabel_def)

lemma instrLen_0_0: "instrLen 0 0 = 1"
  by (simp add: instrLen_def instrLen_loop.simps numNibbles_minus_1)

lemma resolvePass_self_reference:
  "resolvePass [''foo'' \<mapsto> 0] [Label ''foo'' a, InstrLabel BR ''foo'' b] =
     Inr ([Label ''foo'' 0, InstrLabel BR ''foo'' (- 1)], 2)"
  by (simp add: resolvePass_def resolveDirective_def alignData_def setLabelValueAt_def
      resolveOperand_def lookupLabel_def labelValueAt_def instrLen_0_0 immSize_minus_1
      upt_rec[of 0] upt_rec[of 1])

lemma resolveLabels_self_reference:
  "resolveLabels [''foo'' \<mapsto> 0] [Label ''foo'' a, InstrLabel BR ''foo'' b] =
     Some (Inr [Label ''foo'' 0, InstrLabel BR ''foo'' (- 1)])"
  unfolding resolveLabels_def
  apply (subst resolveLoop.simps)
  apply (simp add: resolvePass_self_reference)
  apply (subst resolveLoop.simps)
  apply (simp add: resolvePass_self_reference)
  apply (subst resolveLoop.simps)
  apply simp
  done


lemma offsets_self_reference:
  "emitProgramText_offsets 0 [Label ''foo'' 0, InstrLabel BR ''foo'' (- 1)] = [0, 0]"
  by (simp add: alignData_def)

text \<open>
  C1 fails on the program \<^verbatim>\<open>foo BR foo\<close>, a branch to the label at its own
  address. The layout loop finishes; the label and the instruction are at offset 0,
  the instruction has size 2 (\<^verbatim>\<open>getSize\<close> gives 2 for a negative value of one
  nibble), and the displacement stored is \<open>-1\<close> where the invariant asks for
  \<open>0 - (0 + 2) = -2\<close>: \<^verbatim>\<open>instrLen\<close> returned the length 1.
\<close>

theorem self_reference_displacement:
  "\<exists>program labelMap program'.
     parseProgram uninit (initLexer [LWord ''foo'', LWord ''BR'', LWord ''foo'']) = Inr program \<and>
     createLabelMap program = Inr labelMap \<and>
     resolveLabels labelMap program = Some (Inr program') \<and>
     program' = [Label ''foo'' 0, InstrLabel BR ''foo'' (- 1)] \<and>
     emitProgramText_offsets 0 program' = [0, 0] \<and>
     getSize (program' ! 1) = 2 \<and>
     \<not> displacementsResolved labelMap program'"
proof -
  have "\<not> displacementsResolved [''foo'' \<mapsto> 0] [Label ''foo'' 0, InstrLabel BR ''foo'' (- 1)]"
    by (simp add: displacementsResolved_def alignData_def Let_def immSize_minus_1
        upt_rec[of 0] upt_rec[of 1])
  then show ?thesis
    using parse_self_reference[of uninit] labelMap_self_reference resolveLabels_self_reference
      offsets_self_reference
    by (simp add: immSize_minus_1)
qed

subsection \<open>A reference to a label that is not defined\<close>

lemma parse_unknown_label:
  "parseProgram uninit (initLexer [LWord ''BR'', LWord ''foo'']) =
     Inr [InstrLabel BR ''foo'' (uninit 1)]"
  by (simp add: parseProgram_def parseProgram_loop.simps initLexer_def getNextToken_def
      lookup_def parseDirective_def parseInstr_def Let_def)

lemma resolveLabels_unknown_label:
  "resolveLabels Map.empty [InstrLabel BR ''foo'' b] = Some (Inl NullDereference)"
  unfolding resolveLabels_def
  apply (subst resolveLoop.simps)
  apply (simp add: resolvePass_def resolveDirective_def alignData_def resolveOperand_def
      lookupLabel_def)
  done

text \<open>
  C2 fails on the program \<^verbatim>\<open>BR foo\<close>, the input of the test
  \<^verbatim>\<open>error_unknown_label\<close>: the assembler stops before any output is written,
  but not with an error it reports. \<^verbatim>\<open>labelMap[...]\<close> inserts a null pointer for
  the unknown name and \<^verbatim>\<open>->getValue()\<close> dereferences it.
\<close>

theorem unknown_label_null_dereference:
  "assemble E uninit [LWord ''BR'', LWord ''foo''] = Some (Inl NullDereference) \<and>
   \<not> reported NullDereference"
  by (simp add: assemble_def parse_unknown_label createLabelMap_def addLabel_def
      resolveLabels_unknown_label)

subsection \<open>Parser errors\<close>


lemma lookup_not_EOF: "lookup w \<noteq> END_OF_FILE"
  by (simp add: lookup_def)

lemma lexemeToken_not_EOF: "lexemeToken l \<noteq> END_OF_FILE"
  by (cases l) (simp_all add: lookup_not_EOF)

lemma getNextToken_Nil:
  "input lx = [] \<Longrightarrow> lastToken (getNextToken lx) = END_OF_FILE \<and> input (getNextToken lx) = []"
  by (simp add: getNextToken_def)

lemma getNextToken_Cons:
  "input lx = l # ls \<Longrightarrow>
   lastToken (getNextToken lx) = lexemeToken l \<and> input (getNextToken lx) = ls"
  by (cases l) (simp_all add: getNextToken_def)

text \<open>
  The tokens the parser has in front of it: the token just read, unless the input has
  ended, and the tokens of the lexemes not yet read.
\<close>

definition tokensFrom :: "Lexer \<Rightarrow> Token list" where
  "tokensFrom lx =
     (if lastToken lx = END_OF_FILE then []
      else lastToken lx # map lexemeToken (input lx))"

lemma tokensFrom_getNextToken:
  "tokensFrom (getNextToken lx) = map lexemeToken (input lx)"
proof (cases "input lx")
  case Nil
  then show ?thesis using getNextToken_Nil[of lx] by (simp add: tokensFrom_def)
next
  case (Cons l ls)
  then show ?thesis
    using getNextToken_Cons[of lx l ls] lexemeToken_not_EOF[of l] by (simp add: tokensFrom_def)
qed

lemma parseInteger_spec:
  assumes "lastToken lx = END_OF_FILE \<longrightarrow> input lx = []"
  shows "case parseInteger lx of
           Inl e \<Rightarrow> fst (signedInteger True (tokensFrom lx))
         | Inr (v, lx') \<Rightarrow>
             \<not> fst (signedInteger True (tokensFrom lx)) \<and>
             map lexemeToken (input lx') = snd (signedInteger True (tokensFrom lx))"
proof (cases "lastToken lx = MINUS")
  case True
  show ?thesis
  proof (cases "input lx")
    case Nil
    then show ?thesis
      using True getNextToken_Nil[of lx]
      by (simp add: parseInteger_def expectNext_def expectLast_def signedInteger_def
          tokensFrom_def Let_def)
  next
    case (Cons l ls)
    then show ?thesis
      using True getNextToken_Cons[of lx l ls]
      by (simp add: parseInteger_def expectNext_def expectLast_def signedInteger_def
          tokensFrom_def Let_def)
  qed
next
  case False
  then show ?thesis
    using assms
    by (auto simp: parseInteger_def expectLast_def signedInteger_def tokensFrom_def)
qed


lemma getNextToken_EOF:
  "lastToken (getNextToken lx) = END_OF_FILE \<longrightarrow> input (getNextToken lx) = []"
proof (cases "input lx")
  case Nil
  then show ?thesis using getNextToken_Nil[of lx] by simp
next
  case (Cons l ls)
  then show ?thesis using getNextToken_Cons[of lx l ls] lexemeToken_not_EOF[of l] by simp
qed

lemma parseInteger_getNextToken_spec:
  "case parseInteger (getNextToken lx) of
     Inl e \<Rightarrow> fst (signedInteger True (map lexemeToken (input lx)))
   | Inr (v, lx') \<Rightarrow>
       \<not> fst (signedInteger True (map lexemeToken (input lx))) \<and>
       map lexemeToken (input lx') = snd (signedInteger True (map lexemeToken (input lx)))"
  using parseInteger_spec[OF getNextToken_EOF[of lx]] unfolding tokensFrom_getNextToken .

lemma parseInstr_spec:
  assumes "addressed (lastToken lx)"
  shows "case parseInstr u lx of
           Inl e \<Rightarrow> fst (specStatement True (lastToken lx) (map lexemeToken (input lx)))
         | Inr (d, lx') \<Rightarrow>
             \<not> fst (specStatement True (lastToken lx) (map lexemeToken (input lx))) \<and>
             map lexemeToken (input lx') =
               snd (specStatement True (lastToken lx) (map lexemeToken (input lx)))"
proof -
  from assms have t: "lastToken lx \<noteq> DATA" "lastToken lx \<noteq> FUNC" "lastToken lx \<noteq> PROC"
    "lastToken lx \<noteq> IDENTIFIER" "lastToken lx \<noteq> OPR"
    by (auto simp: addressed_def)
  show ?thesis
  proof (cases "input lx")
    case Nil
    then show ?thesis
      using parseInteger_getNextToken_spec[of lx] getNextToken_Nil[of lx] assms t
      by (auto simp: parseInstr_def specStatement_def Let_def split: sum.splits)
  next
    case (Cons l ls)
    then show ?thesis
      using parseInteger_getNextToken_spec[of lx] getNextToken_Cons[of lx l ls] assms t
      by (auto simp: parseInstr_def specStatement_def Let_def split: sum.splits)
  qed
qed

lemma parseDirective_spec:
  "case parseDirective u lx of
     Inl e \<Rightarrow> fst (specStatement True (lastToken lx) (map lexemeToken (input lx)))
   | Inr (d, lx') \<Rightarrow>
       \<not> fst (specStatement True (lastToken lx) (map lexemeToken (input lx))) \<and>
       map lexemeToken (input lx') =
         snd (specStatement True (lastToken lx) (map lexemeToken (input lx)))"
proof (cases "addressed (lastToken lx)")
  case True
  then have "parseDirective u lx = parseInstr u lx"
    by (auto simp: addressed_def parseDirective_def)
  then show ?thesis using parseInstr_spec[OF True, where u = u] by simp
next
  case False
  note na = False
  consider (data) "lastToken lx = DATA" | (func) "lastToken lx = FUNC \<or> lastToken lx = PROC"
    | (ident) "lastToken lx = IDENTIFIER" | (opr) "lastToken lx = OPR"
    | (other) "lastToken lx \<notin> {DATA, FUNC, PROC, IDENTIFIER, OPR}"
    by auto
  then show ?thesis
  proof cases
    case data
    then show ?thesis
      using parseInteger_getNextToken_spec[of lx]
      by (auto simp: parseDirective_def specStatement_def split: sum.splits)
  next
    case func
    have "map lexemeToken (input (getNextToken lx)) = tl (map lexemeToken (input lx))"
    proof (cases "input lx")
      case Nil
      then show ?thesis using getNextToken_Nil[of lx] by simp
    next
      case (Cons l ls)
      then show ?thesis using getNextToken_Cons[of lx l ls] by simp
    qed
    with func show ?thesis
      by (auto simp: parseDirective_def specStatement_def parseIdentifier_def Let_def)
  next
    case ident
    then show ?thesis by (simp add: parseDirective_def specStatement_def)
  next
    case opr
    show ?thesis
    proof (cases "input lx")
      case Nil
      then show ?thesis
        using opr getNextToken_Nil[of lx]
        by (simp add: parseDirective_def specStatement_def newInstrOp_def Let_def)
    next
      case (Cons l ls)
      then show ?thesis
        using opr getNextToken_Cons[of lx l ls]
        by (auto simp: parseDirective_def specStatement_def newInstrOp_def Let_def subOpcode_def)
    qed
  next
    case other
    with na show ?thesis
      by (cases "lastToken lx") (simp_all add: parseDirective_def specStatement_def addressed_def)
  qed
qed

lemma parseProgram_loop_spec:
  "(\<exists>e. parseProgram_loop uninit lx program = Inl e)
     \<longleftrightarrow> specParseError True (map lexemeToken (input lx))"
proof (induction uninit lx program rule: parseProgram_loop.induct)
  case (1 uninit lx program)
  show ?case
  proof (cases "input lx")
    case Nil
    then show ?thesis
      using getNextToken_Nil[of lx]
      by (subst parseProgram_loop.simps) (simp add: Let_def)
  next
    case (Cons l ls)
    define lx1 where "lx1 = getNextToken lx"
    have lx1: "lastToken lx1 = lexemeToken l" "input lx1 = ls"
      using getNextToken_Cons[OF Cons] by (simp_all add: lx1_def)
    have ne: "lastToken lx1 \<noteq> END_OF_FILE" using lx1(1) lexemeToken_not_EOF by simp
    have unf: "parseProgram_loop uninit lx program =
        (case parseDirective (uninit (length (input lx1))) lx1 of
           Inl e \<Rightarrow> Inl e
         | Inr (d, lx2) \<Rightarrow> parseProgram_loop uninit lx2 (program @ [d]))"
      using ne by (subst parseProgram_loop.simps) (simp add: lx1_def Let_def)
    have sp: "specParseError True (map lexemeToken (input lx)) =
        (fst (specStatement True (lexemeToken l) (map lexemeToken ls)) \<or>
         specParseError True (snd (specStatement True (lexemeToken l) (map lexemeToken ls))))"
      by (simp add: Cons)
    show ?thesis
    proof (cases "parseDirective (uninit (length (input lx1))) lx1")
      case (Inl e)
      from parseDirective_spec[where u = "uninit (length (input lx1))" and lx = lx1]
      have a: "fst (specStatement True (lexemeToken l) (map lexemeToken ls))"
        using Inl lx1 by simp
      have "parseProgram_loop uninit lx program = Inl e"
        unfolding unf Inl by simp
      then show ?thesis
        unfolding sp using a by simp
    next
      case (Inr x)
      obtain d lx2 where x: "x = (d, lx2)" by (cases x)
      have pd: "parseDirective (uninit (length (input lx1))) lx1 = Inr (d, lx2)"
        using Inr x by simp
      have ih: "(\<exists>e. parseProgram_loop uninit lx2 (program @ [d]) = Inl e)
          \<longleftrightarrow> specParseError True (map lexemeToken (input lx2))"
        by (rule "1.IH"[OF lx1_def ne Inr x[symmetric]])
      from parseDirective_spec[where u = "uninit (length (input lx1))" and lx = lx1]
      have a: "\<not> fst (specStatement True (lexemeToken l) (map lexemeToken ls))"
        and b: "map lexemeToken (input lx2) =
          snd (specStatement True (lexemeToken l) (map lexemeToken ls))"
        using pd lx1 by simp_all
      have "parseProgram_loop uninit lx program = parseProgram_loop uninit lx2 (program @ [d])"
        unfolding unf pd by simp
      then show ?thesis
        unfolding sp using ih a b by simp
    qed
  qed
qed


lemma parseInteger_reported: "parseInteger lx = Inl e \<Longrightarrow> reported e"
  by (auto simp: parseInteger_def expectNext_def expectLast_def Let_def
      split: if_splits sum.splits)

lemma parseInstr_reported: "parseInstr u lx = Inl e \<Longrightarrow> reported e"
  using parseInteger_reported[of "getNextToken lx" e]
  by (auto simp: parseInstr_def Let_def split: if_splits sum.splits)

lemma parseDirective_reported: "parseDirective u lx = Inl e \<Longrightarrow> reported e"
  using parseInteger_reported[of "getNextToken lx" e] parseInstr_reported[of u lx e]
  by (cases "lastToken lx")
    (auto simp: parseDirective_def parseIdentifier_def newInstrOp_def Let_def
      split: if_splits sum.splits)

lemma parseProgram_loop_reported:
  "parseProgram_loop uninit lx program = Inl e \<Longrightarrow> reported e"
proof (induction uninit lx program rule: parseProgram_loop.induct)
  case (1 uninit lx program)
  define lx1 where "lx1 = getNextToken lx"
  show ?case
  proof (cases "lastToken lx1 \<noteq> END_OF_FILE")
    case True
    have unf: "parseProgram_loop uninit lx program =
        (case parseDirective (uninit (length (input lx1))) lx1 of
           Inl e \<Rightarrow> Inl e
         | Inr (d, lx2) \<Rightarrow> parseProgram_loop uninit lx2 (program @ [d]))"
      using True by (subst parseProgram_loop.simps) (simp add: lx1_def Let_def)
    show ?thesis
    proof (cases "parseDirective (uninit (length (input lx1))) lx1")
      case (Inl e')
      with "1.prems" have "e' = e" unfolding unf by simp
      with Inl show ?thesis using parseDirective_reported by blast
    next
      case (Inr x)
      obtain d lx2 where x: "x = (d, lx2)" by (cases x)
      have "parseProgram_loop uninit lx2 (program @ [d]) = Inl e"
        using "1.prems" unfolding unf Inr x by simp
      then show ?thesis
        by (rule "1.IH"[OF lx1_def True Inr x[symmetric]])
    qed
  next
    case False
    then have "parseProgram_loop uninit lx program = Inr program"
      by (subst parseProgram_loop.simps) (simp add: lx1_def Let_def)
    with "1.prems" show ?thesis by simp
  qed
qed

text \<open>
  C8, as amended. The parser raises an error exactly when the token at statement
  position is not \<open>DATA\<close>, \<open>FUNC\<close>, \<open>PROC\<close>, \<open>IDENTIFIER\<close>, \<open>OPR\<close> or an
  addressed opcode; or, where a signed integer is expected, the token is neither
  \<open>NUMBER\<close> nor a \<open>MINUS\<close> followed by \<open>NUMBER\<close>; or the operand of \<open>OPR\<close> is
  not one of \<open>BRB\<close>, \<open>ADD\<close>, \<open>SUB\<close>, \<open>SVC\<close>. The assembler then stops with that
  error, which it reports.
\<close>

theorem parser_error_iff:
  "((\<exists>e. parseProgram uninit (initLexer ls) = Inl e)
      \<longleftrightarrow> specParseError True (map lexemeToken ls)) \<and>
   (\<forall>e. parseProgram uninit (initLexer ls) = Inl e \<longrightarrow>
      assemble E uninit ls = Some (Inl e) \<and> reported e)"
proof -
  have "(\<exists>e. parseProgram uninit (initLexer ls) = Inl e)
      \<longleftrightarrow> specParseError True (map lexemeToken ls)"
    unfolding parseProgram_def
    using parseProgram_loop_spec[of uninit "initLexer ls" "[]"] by (simp add: initLexer_def)
  moreover have "assemble E uninit ls = Some (Inl e) \<and> reported e"
    if "parseProgram uninit (initLexer ls) = Inl e" for e
    using that parseProgram_loop_reported[of uninit "initLexer ls" "[]" e]
    by (simp add: assemble_def parseProgram_def)
  ultimately show ?thesis by blast
qed

theorem parser_error_iff_witness:
  "specParseError True (map lexemeToken [LWord ''OPR'', LWord ''OPR'']) \<and>
   (\<exists>e. parseProgram (\<lambda>n. 0) (initLexer [LWord ''OPR'', LWord ''OPR'']) = Inl e \<and>
        assemble specEnums (\<lambda>n. 0) [LWord ''OPR'', LWord ''OPR''] = Some (Inl e) \<and> reported e) \<and>
   \<not> specParseError True (map lexemeToken [LWord ''LDAC'', LMinus, LNumber 1]) \<and>
   \<not> (\<exists>e. parseProgram (\<lambda>n. 0) (initLexer [LWord ''LDAC'', LMinus, LNumber 1]) = Inl e)"
proof -
  have a: "specParseError True (map lexemeToken [LWord ''OPR'', LWord ''OPR''])"
    by (simp add: lookup_def specStatement_def subOpcode_def)
  have b: "\<not> specParseError True (map lexemeToken [LWord ''LDAC'', LMinus, LNumber 1])"
    by (simp add: lookup_def specStatement_def addressed_def signedInteger_def)
  from a b parser_error_iff[of "\<lambda>n. 0" "[LWord ''OPR'', LWord ''OPR'']" specEnums]
    parser_error_iff[of "\<lambda>n. 0" "[LWord ''LDAC'', LMinus, LNumber 1]" specEnums]
  show ?thesis by blast
qed

text \<open>
  C8 as stated fails on the source \<^verbatim>\<open>DATA\<close> with nothing after it: the token at
  statement position is \<open>DATA\<close>, there is no \<open>MINUS\<close> and no \<open>OPR\<close>, and the
  parser raises \<^verbatim>\<open>expected NUMBER\<close>.
\<close>

theorem parser_error_expected_number:
  "parseProgram (\<lambda>n. 0) (initLexer [LWord ''DATA'']) = Inl (Expected NUMBER) \<and>
   \<not> specParseError False (map lexemeToken [LWord ''DATA''])"
  by (simp add: parseProgram_def parseProgram_loop.simps initLexer_def getNextToken_def
      lookup_def parseDirective_def parseInteger_def expectLast_def Let_def
      specStatement_def signedInteger_def)

subsection \<open>Alignment of data\<close>

lemma mask2: "(3 :: cint) = mask 2" by (simp add: mask_eq_exp_minus_1)

lemma unat_and_3: "unat ((x :: cint) AND 3) = unat x mod 4"
proof -
  have "x AND mask 2 = take_bit 2 x" by (simp add: take_bit_eq_mask)
  then have "unat (x AND 3) = take_bit 2 (unat x)"
    unfolding mask2 by (simp add: unsigned_take_bit_eq)
  then show ?thesis by (simp add: take_bit_eq_mod)
qed

lemma and_3_eq_0_iff: "(x :: cint) AND 3 = 0 \<longleftrightarrow> unat x mod 4 = 0"
  using unat_and_3[of x] by (metis unat_eq_0)

lemma unat_of_nat_mod_4: "unat (of_nat n :: cint) mod 4 = n mod 4"
proof -
  have "unat (of_nat n :: cint) = n mod 2 ^ 32" by (simp add: unat_of_nat)
  moreover have "(n mod 2 ^ 32) mod 4 = n mod 4"
    by (rule mod_mod_cancel) simp
  ultimately show ?thesis by simp
qed

lemma unat_pad:
  assumes "(x :: cint) AND 3 \<noteq> 0"
  shows "unat (4 - (x AND 3)) = 4 - unat x mod 4"
proof -
  have "unat (x AND 3) < 4" using unat_and_3[of x] by simp
  then have "x AND 3 \<le> 4" by (simp add: word_le_nat_alt)
  then have "unat (4 - (x AND 3)) = unat (4 :: cint) - unat (x AND 3)"
    by (rule unat_sub)
  then show ?thesis by (simp add: unat_and_3)
qed

lemma aligned_after_pad:
  assumes "(x :: cint) AND 3 \<noteq> 0"
  shows "(x + (4 - (x AND 3))) AND 3 = 0"
proof -
  have p: "unat (4 - (x AND 3)) = 4 - unat x mod 4" by (rule unat_pad[OF assms])
  have "unat (x + (4 - (x AND 3))) = (unat x + (4 - unat x mod 4)) mod 2 ^ 32"
    by (simp add: unat_word_ariths p)
  then have "unat (x + (4 - (x AND 3))) mod 4 = (unat x + (4 - unat x mod 4)) mod 4"
    by (simp add: mod_mod_cancel)
  also have "\<dots> = 0" by presburger
  finally show ?thesis by (simp add: and_3_eq_0_iff)
qed

text \<open>The padding before a directive: what \<open>alignData\<close> adds to the offset.\<close>

definition padding :: "Directive \<Rightarrow> cint \<Rightarrow> cint" where
  "padding directive byteOffset = alignData directive byteOffset - byteOffset"

lemma alignData_Data_aligned: "alignData (Data v) off AND 3 = 0"
  by (simp add: alignData_def aligned_after_pad)

lemma unat_padding_Data:
  "unat (padding (Data v) off) = (if unat off mod 4 = 0 then 0 else 4 - unat off mod 4)"
  using unat_pad[of off] by (simp add: padding_def alignData_def and_3_eq_0_iff)

lemma foldE_append:
  "foldE f (xs @ ys) s = (case foldE f xs s of Inl e \<Rightarrow> Inl e | Inr s' \<Rightarrow> foldE f ys s')"
  by (induction xs arbitrary: s) (auto split: sum.splits)

lemma list_update_same: "p ! i = d \<Longrightarrow> p[i := d] = p"
  by (metis list_update_id)

lemma resolveDirective_result:
  assumes "resolveDirective labelMap (p, off) i = Inr (p', off')" and "i < length p"
  shows "\<exists>d'. p' = p[i := d'] \<and> getToken d' = getToken (p ! i) \<and>
           off' = alignData (p ! i) off + of_nat (getSize d')"
proof (cases "p ! i")
  case (Label name v)
  with assms show ?thesis
    by (auto simp: resolveDirective_def setLabelValueAt_def Let_def)
next
  case (InstrLabel t name v)
  with assms show ?thesis
    by (auto simp: resolveDirective_def setLabelValueAt_def resolveOperand_def Let_def
        split: if_splits sum.splits)
next
  case (Data v)
  with assms show ?thesis
    by (intro exI[of _ "p ! i"]) (auto simp: resolveDirective_def Let_def list_update_same)
next
  case (Func name)
  with assms show ?thesis
    by (intro exI[of _ "p ! i"]) (auto simp: resolveDirective_def Let_def list_update_same)
next
  case (Proc name)
  with assms show ?thesis
    by (intro exI[of _ "p ! i"]) (auto simp: resolveDirective_def Let_def list_update_same)
next
  case (InstrImm t v)
  with assms show ?thesis
    by (intro exI[of _ "p ! i"])
      (auto simp: resolveDirective_def setLabelValueAt_def Let_def list_update_same
        split: if_splits)
next
  case (InstrOp opcode)
  with assms show ?thesis
    by (intro exI[of _ "p ! i"]) (auto simp: resolveDirective_def Let_def list_update_same)
qed

text \<open>
  The offset after a list of directives laid out from \<open>off\<close>: alignment before
  \<open>Data\<close>, then the size, as in all three loops over the program.
\<close>

fun layoutEnd :: "cint \<Rightarrow> Directive list \<Rightarrow> cint" where
  "layoutEnd off [] = off"
| "layoutEnd off (d # ds) = layoutEnd (alignData d off + of_nat (getSize d)) ds"

lemma layoutEnd_append: "layoutEnd off (xs @ ys) = layoutEnd (layoutEnd off xs) ys"
  by (induction xs arbitrary: off) simp_all

lemma alignData_cong_token: "getToken d = getToken d' \<Longrightarrow> alignData d off = alignData d' off"
  by (simp add: alignData_def)

lemma pass_prefix:
  assumes "k \<le> length p"
    and "foldE (resolveDirective labelMap) [0..<k] (p, 0) = Inr (pk, ok)"
  shows "length pk = length p \<and> ok = layoutEnd 0 (take k pk)"
  using assms
proof (induction k arbitrary: pk ok)
  case 0
  then show ?case by simp
next
  case (Suc k)
  from Suc.prems(2) obtain pj oj where
    j: "foldE (resolveDirective labelMap) [0..<k] (p, 0) = Inr (pj, oj)"
    and st: "resolveDirective labelMap (pj, oj) k = Inr (pk, ok)"
    by (auto simp: foldE_append split: sum.splits)
  from Suc.IH[OF _ j] Suc.prems(1) have ih: "length pj = length p" "oj = layoutEnd 0 (take k pj)"
    by simp_all
  have k: "k < length pj" using ih(1) Suc.prems(1) by simp
  from resolveDirective_result[OF st k] obtain d' where
    d: "pk = pj[k := d']" "getToken d' = getToken (pj ! k)"
      "ok = alignData (pj ! k) oj + of_nat (getSize d')"
    by blast
  have "take (Suc k) pk = take k pj @ [d']"
    using k d(1) by (simp add: take_Suc_conv_app_nth)
  then have "layoutEnd 0 (take (Suc k) pk) = alignData d' oj + of_nat (getSize d')"
    by (simp add: layoutEnd_append ih(2))
  also have "\<dots> = ok"
    using d(3) alignData_cong_token[OF d(2)] by simp
  finally show ?case using d(1) ih(1) by simp
qed

lemma pass_later:
  assumes "foldE (resolveDirective labelMap) [k..<m] (pk, ok) = Inr (pm, om)"
    and "m \<le> length pk"
  shows "take k pm = take k pk \<and> length pm = length pk"
  using assms
proof (induction m arbitrary: pm om)
  case 0
  then show ?case by simp
next
  case (Suc m)
  show ?case
  proof (cases "k \<le> m")
    case True
    then have "[k..<Suc m] = [k..<m] @ [m]" by simp
    with Suc.prems(1) obtain pj oj where
      j: "foldE (resolveDirective labelMap) [k..<m] (pk, ok) = Inr (pj, oj)"
      and st: "resolveDirective labelMap (pj, oj) m = Inr (pm, om)"
      by (auto simp: foldE_append split: sum.splits)
    from Suc.IH[OF j] Suc.prems(2) have ih: "take k pj = take k pk" "length pj = length pk"
      by simp_all
    have "m < length pj" using ih(2) Suc.prems(2) by simp
    from resolveDirective_result[OF st this] obtain d' where "pm = pj[m := d']" by blast
    then have "take k pm = take k pj \<and> length pm = length pj" using True by simp
    with ih show ?thesis by simp
  next
    case False
    with Suc.prems show ?thesis by simp
  qed
qed


lemma length_intBytes: "length (intBytes v) = 4"
  by (simp add: intBytes_def)

lemma emitDirective_Data:
  "emitDirective E (out, off) (Data v) =
     Inr (out @ replicate (unat (padding (Data v) off)) 0 @ intBytes v,
          alignData (Data v) off + 4)"
  by (simp add: emitDirective_def padding_def alignData_def intBytes_def)

lemma emitDirective_result:
  assumes "emitDirective E (out, of_nat (length out)) d = Inr (out', off')"
  shows "off' = of_nat (length out') \<and>
         off' = alignData d (of_nat (length out)) + of_nat (getSize d)"
proof (cases "getToken d = DATA")
  case True
  with assms obtain v where d: "d = Data v"
    by (cases d) (auto simp: emitDirective_def Let_def)
  have "of_nat (unat (padding (Data v) (of_nat (length out)))) =
      padding (Data v) (of_nat (length out) :: cint)"
    by simp
  then show ?thesis
    using assms unfolding d emitDirective_Data
    by (auto simp: length_intBytes padding_def)
next
  case False
  show ?thesis
  proof (cases "0 < getSize d")
    case True
    with assms False obtain prefixes b where
      o: "out' = out @ prefixes @ [b]"
        "off' = of_nat (length out) + of_nat (length prefixes) + 1"
        "prefixes = (if getSize d > 1
            then emitPrefixes (instrToInstrOpc E
                   (if sint (projr (getValue E d)) < 0 then Instr_NFIX else Instr_PFIX))
                   (projr (getValue E d)) (getSize d - 1)
            else [])"
      by (auto simp: emitDirective_def Let_def split: sum.splits)
    have "length prefixes + 1 = getSize d"
      using o(3) True by (auto simp: length_emitPrefixes)
    then have "of_nat (getSize d) = (of_nat (length prefixes) + 1 :: cint)"
      by (metis of_nat_Suc Suc_eq_plus1 add.commute)
    then show ?thesis
      using o(1,2) False by (simp add: alignData_def)
  next
    case False
    with assms \<open>getToken d \<noteq> DATA\<close> show ?thesis
      by (auto simp: emitDirective_def alignData_def)
  qed
qed

lemma emit_fold_invariant:
  assumes "foldE (emitDirective E) ds (out0, of_nat (length out0)) = Inr (out, off)"
  shows "off = of_nat (length out) \<and> off = layoutEnd (of_nat (length out0)) ds"
  using assms
proof (induction ds arbitrary: out0)
  case Nil
  then show ?case by auto
next
  case (Cons d ds)
  from Cons.prems obtain out1 off1 where
    st: "emitDirective E (out0, of_nat (length out0)) d = Inr (out1, off1)"
    and r: "foldE (emitDirective E) ds (out1, off1) = Inr (out, off)"
    by (auto split: sum.splits)
  from emitDirective_result[OF st] have
    o: "off1 = of_nat (length out1)"
      "off1 = alignData d (of_nat (length out0)) + of_nat (getSize d)"
    by blast+
  from Cons.IH[of out1] r o(1) have "off = of_nat (length out)"
    "off = layoutEnd (of_nat (length out1)) ds"
    by blast+
  then show ?case using o by simp
qed

lemma emitProgramBin_offset:
  assumes "emitProgramBin E ds = Inr out"
  shows "foldE (emitDirective E) ds ([], 0) = Inr (out, of_nat (length out)) \<and>
         of_nat (length out) = layoutEnd 0 ds"
proof -
  from assms obtain off where f: "foldE (emitDirective E) ds ([], 0) = Inr (out, off)"
    by (auto simp: emitProgramBin_def split: sum.splits)
  from emit_fold_invariant[of E ds "[]" out off] f show ?thesis by auto
qed


lemma resolveLoop_final:
  assumes "resolveLoop labelMap p lastSize byteOffset = Some r"
  shows "\<forall>p'. r = Inr p' \<longrightarrow>
           (lastSize = byteOffset \<and> p' = p) \<or>
           (\<exists>q tot. resolvePass labelMap q = Inr (p', tot))"
proof (rule resolveLoop.raw_induct[where P = "\<lambda>labelMap p lastSize byteOffset r.
      \<forall>p'. r = Inr p' \<longrightarrow>
           (lastSize = byteOffset \<and> p' = p) \<or>
           (\<exists>q tot. resolvePass labelMap q = Inr (p', tot))", OF _ assms])
  fix loop lm pp ls bo rr
  assume ih: "\<And>a b c d y. loop a b c d = Some y \<Longrightarrow>
      \<forall>p'. y = Inr p' \<longrightarrow> (c = d \<and> p' = b) \<or> (\<exists>q tot. resolvePass a q = Inr (p', tot))"
    and eq: "(if ls \<noteq> bo
        then case resolvePass lm pp of
               Inl e \<Rightarrow> Some (Inl e)
             | Inr (program', byteOffset') \<Rightarrow> loop lm program' bo byteOffset'
        else Some (Inr pp)) = Some rr"
  show "\<forall>p'. rr = Inr p' \<longrightarrow>
           (ls = bo \<and> p' = pp) \<or> (\<exists>q tot. resolvePass lm q = Inr (p', tot))"
  proof (cases "ls \<noteq> bo")
    case True
    show ?thesis
    proof (cases "resolvePass lm pp")
      case (Inl e)
      with eq True have "rr = Inl e" by simp
      then show ?thesis by simp
    next
      case (Inr x)
      obtain q tot where x: "x = (q, tot)" by (cases x)
      with eq True Inr have l: "loop lm q bo tot = Some rr" by simp
      from ih[OF l] Inr x show ?thesis by blast
    qed
  next
    case False
    with eq show ?thesis by auto
  qed
qed

lemma resolveLabels_final:
  assumes "resolveLabels labelMap program = Some (Inr program')"
  shows "\<exists>q tot. resolvePass labelMap q = Inr (program', tot)"
  using resolveLoop_final[OF assms[unfolded resolveLabels_def]] by simp

lemma layout_emit_agree:
  assumes pass: "resolvePass labelMap q = Inr (program', tot)"
    and k: "k \<le> length q"
    and emit: "emitProgramBin E (take k program') = Inr out"
  shows "\<exists>qk. foldE (resolveDirective labelMap) [0..<k] (q, 0) = Inr (qk, of_nat (length out))"
proof -
  have "[0..<length q] = [0..<k] @ [k..<length q]"
    using k by (metis le0 upt_add_eq_append le_add_diff_inverse)
  with pass obtain qk ok where
    pre: "foldE (resolveDirective labelMap) [0..<k] (q, 0) = Inr (qk, ok)"
    and post: "foldE (resolveDirective labelMap) [k..<length q] (qk, ok) = Inr (program', tot)"
    by (auto simp: resolvePass_def foldE_append split: sum.splits)
  from pass_prefix[OF k pre] have l: "length qk = length q" and o: "ok = layoutEnd 0 (take k qk)"
    by simp_all
  from pass_later[OF post] l have "take k program' = take k qk" by simp
  with o emitProgramBin_offset[OF emit] have "ok = of_nat (length out)" by simp
  with pre show ?thesis by blast
qed

lemma emit_Data_at:
  assumes k: "k < length program" and d: "program ! k = Data v"
    and emit: "emitProgramBin E (take k program) = Inr out"
  shows "emitProgramBin E (take (Suc k) program) =
           Inr (out @ replicate (if length out mod 4 = 0 then 0 else 4 - length out mod 4) 0
                    @ intBytes v)"
proof -
  from emitProgramBin_offset[OF emit] have
    f: "foldE (emitDirective E) (take k program) ([], 0) = Inr (out, of_nat (length out))"
    by simp
  have t: "take (Suc k) program = take k program @ [Data v]"
    using k d by (simp add: take_Suc_conv_app_nth)
  have "unat (padding (Data v) (of_nat (length out))) =
      (if length out mod 4 = 0 then 0 else 4 - length out mod 4)"
    by (simp add: unat_padding_Data unat_of_nat_mod_4)
  then show ?thesis
    unfolding t emitProgramBin_def by (simp add: foldE_append f emitDirective_Data)
qed

text \<open>
  C6. Before a \<open>Data\<close> directive the layout pass and the emitter move the running
  offset to the next multiple of 4: the padding is 0 when the offset is a multiple of
  4 and \<open>4 - offset mod 4\<close> otherwise. The layout pass then places the four bytes at
  the aligned offset. The emitter writes that many zero bytes and then the four bytes
  of the value, so the data begin at a multiple of 4 in the output. The program that
  \<^verbatim>\<open>resolveLabels\<close> returns is the result of a layout pass, and the running offset
  of that pass before each directive is the number of bytes the emitter has written
  before it: the two agree on every offset.
\<close>

theorem data_alignment:
  "alignData (Data v) off AND 3 = 0 \<and>
   unat (padding (Data v) off) = (if unat off mod 4 = 0 then 0 else 4 - unat off mod 4) \<and>
   (i < length program \<and> program ! i = Data v \<longrightarrow>
      resolveDirective labelMap (program, off) i =
        Inr (program, off + padding (Data v) off + 4)) \<and>
   (i < length program \<and> program ! i = Data v \<and>
    emitProgramBin E (take i program) = Inr out \<longrightarrow>
      emitProgramBin E (take (Suc i) program) =
        Inr (out @ replicate (if length out mod 4 = 0 then 0 else 4 - length out mod 4) 0
                 @ intBytes v) \<and>
      (length out + (if length out mod 4 = 0 then 0 else 4 - length out mod 4)) mod 4 = 0) \<and>
   (resolveLabels labelMap program = Some (Inr program') \<longrightarrow>
      (\<exists>q tot. resolvePass labelMap q = Inr (program', tot))) \<and>
   (resolvePass labelMap q = Inr (program', tot) \<and> k \<le> length q \<and>
    emitProgramBin E (take k program') = Inr outk \<longrightarrow>
      (\<exists>qk. foldE (resolveDirective labelMap) [0..<k] (q, 0) = Inr (qk, of_nat (length outk))))"
proof -
  have a: "alignData (Data v) off AND 3 = 0" by (rule alignData_Data_aligned)
  have b: "unat (padding (Data v) off) = (if unat off mod 4 = 0 then 0 else 4 - unat off mod 4)"
    by (rule unat_padding_Data)
  have c: "resolveDirective labelMap (program, off) i =
        Inr (program, off + padding (Data v) off + 4)"
    if "i < length program \<and> program ! i = Data v"
    using that by (simp add: resolveDirective_def padding_def)
  have d: "emitProgramBin E (take (Suc i) program) =
        Inr (out @ replicate (if length out mod 4 = 0 then 0 else 4 - length out mod 4) 0
                 @ intBytes v) \<and>
      (length out + (if length out mod 4 = 0 then 0 else 4 - length out mod 4)) mod 4 = 0"
    if "i < length program \<and> program ! i = Data v \<and>
        emitProgramBin E (take i program) = Inr out"
  proof -
    have "(length out + (if length out mod 4 = 0 then 0 else 4 - length out mod 4)) mod 4 = 0"
      by presburger
    with emit_Data_at[of i program v E out] that show ?thesis by blast
  qed
  have e: "\<exists>q tot. resolvePass labelMap q = Inr (program', tot)"
    if "resolveLabels labelMap program = Some (Inr program')"
    using that by (rule resolveLabels_final)
  have f: "\<exists>qk. foldE (resolveDirective labelMap) [0..<k] (q, 0) = Inr (qk, of_nat (length outk))"
    if "resolvePass labelMap q = Inr (program', tot) \<and> k \<le> length q \<and>
        emitProgramBin E (take k program') = Inr outk"
    using that layout_emit_agree[of labelMap q program' tot k E outk] by blast
  from a b c d e f show ?thesis by blast
qed


lemma resolvePass_LDAC_Data:
  "resolvePass Map.empty [InstrImm LDAC 0, Data 7] = Inr ([InstrImm LDAC 0, Data 7], 8)"
  by (simp add: resolvePass_def resolveDirective_def alignData_def immSize_0
      upt_rec[of 0] upt_rec[of 1])

lemma resolveLabels_LDAC_Data:
  "resolveLabels Map.empty [InstrImm LDAC 0, Data 7] = Some (Inr [InstrImm LDAC 0, Data 7])"
  unfolding resolveLabels_def
  apply (subst resolveLoop.simps)
  apply (simp add: resolvePass_LDAC_Data)
  apply (subst resolveLoop.simps)
  apply (simp add: resolvePass_LDAC_Data)
  apply (subst resolveLoop.simps)
  apply simp
  done

theorem data_alignment_witness:
  "resolveDirective Map.empty ([InstrImm LDAC 0, Data 7], 1) 1 =
     Inr ([InstrImm LDAC 0, Data 7], 8) \<and>
   emitProgramBin specEnums [InstrImm LDAC 0, Data 7] = Inr [0x20, 0, 0, 0, 7, 0, 0, 0] \<and>
   resolveLabels Map.empty [InstrImm LDAC 0, Data 7] = Some (Inr [InstrImm LDAC 0, Data 7]) \<and>
   (\<exists>qk. foldE (resolveDirective Map.empty) [0..<2] ([InstrImm LDAC 0, Data 7], 0) = Inr (qk, 8))"
proof -
  let ?P = "[InstrImm LDAC 0, Data 7]"
  let ?out = "[0x20, 0, 0, 0, 7, 0, 0, 0] :: byte list"
  have p: "(1 :: cint) + padding (Data 7) 1 + 4 = 8" by (simp add: padding_def alignData_def)
  have e1: "emitProgramBin specEnums (take 1 ?P) = Inr [0x20]"
    using emit_LDAC_0[OF validEnums_specEnums] by (simp add: nibbleByte_def specEnums_def)
  have pre: "1 < length ?P \<and> ?P ! 1 = Data 7" by simp
  have t: "take (Suc 1) ?P = ?P" by simp
  have r: "[0x20 :: byte] @
      replicate (if length [0x20 :: byte] mod 4 = 0 then 0 else 4 - length [0x20 :: byte] mod 4) 0
      @ intBytes 7 = ?out"
    by (simp add: intBytes_def numeral_3_eq_3)
  note da = data_alignment[of 7 1 1 ?P Map.empty specEnums "[0x20]" ?P ?P 8 2 ?out]
  from da pre have "resolveDirective Map.empty (?P, 1) 1 = Inr (?P, 1 + padding (Data 7) 1 + 4)"
    by blast
  then have a: "resolveDirective Map.empty (?P, 1) 1 = Inr (?P, 8)"
    unfolding p .
  from da pre e1 have "emitProgramBin specEnums (take (Suc 1) ?P) =
      Inr ([0x20] @ replicate (if length [0x20 :: byte] mod 4 = 0 then 0
                                else 4 - length [0x20 :: byte] mod 4) 0 @ intBytes 7)"
    by blast
  then have b: "emitProgramBin specEnums ?P = Inr ?out"
    unfolding t r .
  have l: "of_nat (length ?out) = (8 :: cint)" by simp
  have pre2: "resolvePass Map.empty ?P = Inr (?P, 8) \<and> 2 \<le> length ?P \<and>
      emitProgramBin specEnums (take 2 ?P) = Inr ?out"
    using resolvePass_LDAC_Data b by simp
  from da pre2
  have "\<exists>qk. foldE (resolveDirective Map.empty) [0..<2] (?P, 0) = Inr (qk, of_nat (length ?out))"
    by blast
  then have c: "\<exists>qk. foldE (resolveDirective Map.empty) [0..<2] (?P, 0) = Inr (qk, 8)"
    unfolding l .
  from a b c resolveLabels_LDAC_Data show ?thesis by blast
qed

subsection \<open>Termination of the layout loop\<close>

text \<open>
  \<^verbatim>\<open>instrLen\<close> returns for all arguments, with a length between 1 and 8, because
  \<open>numNibbles\<close> is at most 8: this is the termination proof of \<open>instrLen_loop\<close>.
\<close>

lemma instrLen_loop_bounds:
  "len \<le> 8 \<Longrightarrow> len \<le> instrLen_loop l b len \<and> instrLen_loop l b len \<le> 8"
proof (induction l b len rule: instrLen_loop.induct)
  case (1 labelOffset byteOffset len)
  show ?case
  proof (cases "len < numNibbles (labelOffset - byteOffset - of_nat len)")
    case True
    then have "len + 1 \<le> 8"
      using numNibbles_le_8[of "labelOffset - byteOffset - of_nat len"] by simp
    from "1.IH"[OF True this] True show ?thesis
      by (subst (1 2) instrLen_loop.simps) simp
  next
    case False
    with "1.prems" show ?thesis
      by (subst (1 2) instrLen_loop.simps) simp
  qed
qed

lemma instrLen_bounds: "1 \<le> instrLen labelOffset byteOffset \<and> instrLen labelOffset byteOffset \<le> 8"
  using instrLen_loop_bounds[of 1 labelOffset byteOffset] by (simp add: instrLen_def)

text \<open>
  The directives of the program by index, and the passes over it.
\<close>

lemma length_pad8: "length (pad8 n) = n" by (simp add: pad8_def)

lemma osc_length: "length (oscillating a b c d e f) = 550"
  by (simp add: oscillating_def length_pad8)

lemma osc_pad:
  "i < 31 \<or> (35 \<le> i \<and> i < 37) \<or> (38 \<le> i \<and> i < 67) \<or> (69 \<le> i \<and> i < 548) \<Longrightarrow>
   oscillating a b c d e f ! i = InstrImm LDAC 0x10000000"
  by (auto simp: oscillating_def pad8_def nth_append nth_Cons')

lemma osc_nth:
  "oscillating a b c d e f ! 31 = InstrImm LDAC 0x10000"
  "oscillating a b c d e f ! 32 = InstrLabel BR ''far'' a"
  "oscillating a b c d e f ! 33 = Label ''back'' b"
  "oscillating a b c d e f ! 34 = InstrLabel BR ''near'' c"
  "oscillating a b c d e f ! 37 = Label ''near'' d"
  "oscillating a b c d e f ! 67 = InstrImm LDAC 0x10000"
  "oscillating a b c d e f ! 68 = InstrLabel BR ''back'' e"
  "oscillating a b c d e f ! 548 = InstrImm LDAC 0x1000000"
  "oscillating a b c d e f ! 549 = Label ''far'' f"
  by (simp_all add: oscillating_def pad8_def nth_append)

lemma osc_update:
  "(oscillating a b c d e f)[32 := InstrLabel BR ''far'' x] = oscillating x b c d e f"
  "(oscillating a b c d e f)[33 := Label ''back'' x] = oscillating a x c d e f"
  "(oscillating a b c d e f)[34 := InstrLabel BR ''near'' x] = oscillating a b x d e f"
  "(oscillating a b c d e f)[37 := Label ''near'' x] = oscillating a b c x e f"
  "(oscillating a b c d e f)[68 := InstrLabel BR ''back'' x] = oscillating a b c d x f"
  "(oscillating a b c d e f)[549 := Label ''far'' x] = oscillating a b c d e x"
  by (simp_all add: oscillating_def pad8_def list_update_append)

lemma resolveDirective_InstrImm:
  "p ! i = InstrImm t v \<Longrightarrow> t \<noteq> DATA \<Longrightarrow> t \<noteq> IDENTIFIER \<Longrightarrow>
   resolveDirective lm (p, off) i = Inr (p, off + of_nat (immSize v))"
  by (simp add: resolveDirective_def alignData_def)

lemma resolveDirective_Label:
  "p ! i = Label n v \<Longrightarrow> i < length p \<Longrightarrow>
   resolveDirective lm (p, off) i = Inr (p[i := Label n off], off)"
  by (simp add: resolveDirective_def alignData_def setLabelValueAt_def)

lemma resolveDirective_InstrLabel:
  "p ! i = InstrLabel t n v \<Longrightarrow> i < length p \<Longrightarrow> t \<noteq> DATA \<Longrightarrow> t \<noteq> IDENTIFIER \<Longrightarrow>
   lm n = Some j \<Longrightarrow> j < length p \<Longrightarrow> p ! j = Label n' lv \<Longrightarrow>
   resolveDirective lm (p, off) i =
     Inr (p[i := InstrLabel t n (lv - off - of_nat (instrLen lv off))],
          off + of_nat (immSize (lv - off - of_nat (instrLen lv off))))"
  by (simp add: resolveDirective_def alignData_def resolveOperand_def lookupLabel_def
      labelValueAt_def)

lemma pass_pad8:
  assumes "\<forall>i. k \<le> i \<and> i < k + n \<longrightarrow> p ! i = InstrImm LDAC 0x10000000"
  shows "foldE (resolveDirective lm) [k..<k + n] (p, off) = Inr (p, off + of_nat (8 * n))"
  using assms
proof (induction n)
  case 0
  then show ?case by simp
next
  case (Suc n)
  have i8: "immSize 0x10000000 = 8" by code_simp
  have "p ! (k + n) = InstrImm LDAC 0x10000000" using Suc.prems by simp
  then have st: "resolveDirective lm (p, off + of_nat (8 * n)) (k + n) =
      Inr (p, off + of_nat (8 * n) + of_nat 8)"
    using resolveDirective_InstrImm[of p "k + n" LDAC "0x10000000" lm "off + of_nat (8 * n)"]
    by (simp add: i8)
  have ih: "foldE (resolveDirective lm) [k..<k + n] (p, off) = Inr (p, off + of_nat (8 * n))"
    using Suc by simp
  have "[k..<k + Suc n] = [k..<k + n] @ [k + n]" by simp
  then show ?case
    by (simp only: foldE_append ih st sum.case foldE.simps) simp
qed

lemma foldE_upt_split:
  "k \<le> m \<Longrightarrow> m \<le> n \<Longrightarrow> foldE f [k..<m] s = Inr s' \<Longrightarrow> foldE f [m..<n] s' = r \<Longrightarrow>
   foldE f [k..<n] s = r"
  using upt_add_eq_append[of k m "n - m"] by (simp add: foldE_append)

text \<open>
  Two program states that a pass maps to each other, with different total sizes: once
  the loop is in one of them it never leaves.
\<close>

lemma resolveLoop_cycle:
  assumes xy: "resolvePass lm pX = Inr (pY, tY)"
    and yx: "resolvePass lm pY = Inr (pX, tX)"
    and ne: "tX \<noteq> tY"
  shows "resolveLoop lm pX tY tX = None"
proof (rule ccontr)
  assume "resolveLoop lm pX tY tX \<noteq> None"
  then obtain r where r: "resolveLoop lm pX tY tX = Some r" by auto
  have "\<not> (lm = lm \<and> ((pX = pX \<and> tY = tY \<and> tX = tX) \<or> (pX = pY \<and> tY = tX \<and> tX = tY)))"
  proof (rule resolveLoop.raw_induct[where P = "\<lambda>labelMap p lastSize byteOffset r.
      \<not> (labelMap = lm \<and> ((p = pX \<and> lastSize = tY \<and> byteOffset = tX) \<or>
                          (p = pY \<and> lastSize = tX \<and> byteOffset = tY)))", OF _ r])
    fix loop labelMap pp ls bo rr
    assume ih: "\<And>a b c d y. loop a b c d = Some y \<Longrightarrow>
        \<not> (a = lm \<and> ((b = pX \<and> c = tY \<and> d = tX) \<or> (b = pY \<and> c = tX \<and> d = tY)))"
      and eq: "(if ls \<noteq> bo
          then case resolvePass labelMap pp of
                 Inl e \<Rightarrow> Some (Inl e)
               | Inr (program', byteOffset') \<Rightarrow> loop labelMap program' bo byteOffset'
          else Some (Inr pp)) = Some rr"
    show "\<not> (labelMap = lm \<and> ((pp = pX \<and> ls = tY \<and> bo = tX) \<or> (pp = pY \<and> ls = tX \<and> bo = tY)))"
    proof
      assume c: "labelMap = lm \<and> ((pp = pX \<and> ls = tY \<and> bo = tX) \<or> (pp = pY \<and> ls = tX \<and> bo = tY))"
      then consider "labelMap = lm" "pp = pX" "ls = tY" "bo = tX"
        | "labelMap = lm" "pp = pY" "ls = tX" "bo = tY" by blast
      then show False
      proof cases
        case 1
        with eq xy ne have "loop lm pY tX tY = Some rr" by simp
        from ih[OF this] show False by simp
      next
        case 2
        with eq yx ne have "loop lm pX tY tX = Some rr" by simp
        from ih[OF this] show False by simp
      qed
    qed
  qed
  then show False by simp
qed

lemma pass_pad8_range:
  assumes "k \<le> m" and "\<forall>i. k \<le> i \<and> i < m \<longrightarrow> p ! i = InstrImm LDAC 0x10000000"
    and "off' = off + of_nat (8 * (m - k))"
  shows "foldE (resolveDirective lm) [k..<m] (p, off) = Inr (p, off')"
  using pass_pad8[of k "m - k" p lm off] assms by simp

lemma seg_step:
  "foldE f [k..<m] s = Inr s' \<Longrightarrow> f s' m = Inr s'' \<Longrightarrow> k \<le> m \<Longrightarrow> n = Suc m \<Longrightarrow>
   foldE f [k..<n] s = Inr s''"
  by (simp add: foldE_append)

lemma seg_block:
  "foldE f [k..<m] s = Inr s' \<Longrightarrow> foldE f [m..<n] s' = Inr s'' \<Longrightarrow> k \<le> m \<Longrightarrow> m \<le> n \<Longrightarrow>
   foldE f [k..<n] s = Inr s''"
  using foldE_upt_split[of k m n f s s' "Inr s''"] by simp

lemma immSize_pads: "immSize 0x10000 = 5" "immSize 0x1000000 = 7"
  by code_simp+

lemma resolvePass_oscillating:
  "resolvePass oscLabels (oscillating a b c d e f) =
     (case oscNext d f of (a', b', c', d', e', f') \<Rightarrow>
        Inr (oscillating a' b' c' d' e' f', f'))"
proof -
  let ?R = "resolveDirective oscLabels"
  let ?P0 = "oscillating a b c d e f"
  define vFar where "vFar = f - 253 - of_nat (instrLen f 253)"
  define lBack where "lBack = 253 + (of_nat (immSize vFar) :: cint)"
  define vNear where "vNear = d - lBack - of_nat (instrLen d lBack)"
  define lNear where "lNear = lBack + of_nat (immSize vNear) + 16"
  define atBack where "atBack = lNear + 237"
  define vBack where "vBack = lBack - atBack - of_nat (instrLen lBack atBack)"
  define lFar where "lFar = atBack + of_nat (immSize vBack) + 3839"
  have t1: "foldE ?R [0..<31] (?P0, 0) = Inr (?P0, 248)"
    by (rule pass_pad8_range) (simp_all add: osc_pad)
  have r2: "?R (?P0, 248) 31 = Inr (?P0, 253)"
    using resolveDirective_InstrImm[of ?P0 31 LDAC "0x10000" oscLabels 248]
    by (simp add: osc_nth immSize_pads)
  have t2: "foldE ?R [0..<32] (?P0, 0) = Inr (?P0, 253)"
    by (rule seg_step[OF t1 r2]) simp_all
  have r3: "?R (?P0, 253) 32 = Inr (oscillating vFar b c d e f, lBack)"
    using resolveDirective_InstrLabel[of ?P0 32 BR "''far''" a oscLabels 549 "''far''" f 253]
    by (simp add: osc_nth osc_length oscLabels_def osc_update vFar_def lBack_def)
  have t3: "foldE ?R [0..<33] (?P0, 0) = Inr (oscillating vFar b c d e f, lBack)"
    by (rule seg_step[OF t2 r3]) simp_all
  have r4: "?R (oscillating vFar b c d e f, lBack) 33 = Inr (oscillating vFar lBack c d e f, lBack)"
    using resolveDirective_Label[of "oscillating vFar b c d e f" 33 "''back''" b oscLabels lBack]
    by (simp add: osc_nth osc_length osc_update)
  have t4: "foldE ?R [0..<34] (?P0, 0) = Inr (oscillating vFar lBack c d e f, lBack)"
    by (rule seg_step[OF t3 r4]) simp_all
  have r5: "?R (oscillating vFar lBack c d e f, lBack) 34 =
      Inr (oscillating vFar lBack vNear d e f, lBack + of_nat (immSize vNear))"
    using resolveDirective_InstrLabel[of "oscillating vFar lBack c d e f" 34 BR "''near''" c
        oscLabels 37 "''near''" d lBack]
    by (simp add: osc_nth osc_length oscLabels_def osc_update vNear_def)
  have t5: "foldE ?R [0..<35] (?P0, 0) =
      Inr (oscillating vFar lBack vNear d e f, lBack + of_nat (immSize vNear))"
    by (rule seg_step[OF t4 r5]) simp_all
  have b6: "foldE ?R [35..<37] (oscillating vFar lBack vNear d e f, lBack + of_nat (immSize vNear)) =
      Inr (oscillating vFar lBack vNear d e f, lNear)"
    by (rule pass_pad8_range) (simp_all add: osc_pad lNear_def)
  have t6: "foldE ?R [0..<37] (?P0, 0) = Inr (oscillating vFar lBack vNear d e f, lNear)"
    by (rule seg_block[OF t5 b6]) simp_all
  have r7: "?R (oscillating vFar lBack vNear d e f, lNear) 37 =
      Inr (oscillating vFar lBack vNear lNear e f, lNear)"
    using resolveDirective_Label[of "oscillating vFar lBack vNear d e f" 37 "''near''" d
        oscLabels lNear]
    by (simp add: osc_nth osc_length osc_update)
  have t7: "foldE ?R [0..<38] (?P0, 0) = Inr (oscillating vFar lBack vNear lNear e f, lNear)"
    by (rule seg_step[OF t6 r7]) simp_all
  have b8: "foldE ?R [38..<67] (oscillating vFar lBack vNear lNear e f, lNear) =
      Inr (oscillating vFar lBack vNear lNear e f, lNear + 232)"
    by (rule pass_pad8_range) (simp_all add: osc_pad)
  have t8: "foldE ?R [0..<67] (?P0, 0) = Inr (oscillating vFar lBack vNear lNear e f, lNear + 232)"
    by (rule seg_block[OF t7 b8]) simp_all
  have r9: "?R (oscillating vFar lBack vNear lNear e f, lNear + 232) 67 =
      Inr (oscillating vFar lBack vNear lNear e f, atBack)"
    using resolveDirective_InstrImm[of "oscillating vFar lBack vNear lNear e f" 67 LDAC "0x10000"
        oscLabels "lNear + 232"]
    by (simp add: osc_nth immSize_pads atBack_def)
  have t9: "foldE ?R [0..<68] (?P0, 0) = Inr (oscillating vFar lBack vNear lNear e f, atBack)"
    by (rule seg_step[OF t8 r9]) simp_all
  have r10: "?R (oscillating vFar lBack vNear lNear e f, atBack) 68 =
      Inr (oscillating vFar lBack vNear lNear vBack f, atBack + of_nat (immSize vBack))"
    using resolveDirective_InstrLabel[of "oscillating vFar lBack vNear lNear e f" 68 BR "''back''" e
        oscLabels 33 "''back''" lBack atBack]
    by (simp add: osc_nth osc_length oscLabels_def osc_update vBack_def)
  have t10: "foldE ?R [0..<69] (?P0, 0) =
      Inr (oscillating vFar lBack vNear lNear vBack f, atBack + of_nat (immSize vBack))"
    by (rule seg_step[OF t9 r10]) simp_all
  have b11: "foldE ?R [69..<548]
        (oscillating vFar lBack vNear lNear vBack f, atBack + of_nat (immSize vBack)) =
      Inr (oscillating vFar lBack vNear lNear vBack f, atBack + of_nat (immSize vBack) + 3832)"
    by (rule pass_pad8_range) (simp_all add: osc_pad)
  have t11: "foldE ?R [0..<548] (?P0, 0) =
      Inr (oscillating vFar lBack vNear lNear vBack f, atBack + of_nat (immSize vBack) + 3832)"
    by (rule seg_block[OF t10 b11]) simp_all
  have r12: "?R (oscillating vFar lBack vNear lNear vBack f,
        atBack + of_nat (immSize vBack) + 3832) 548 =
      Inr (oscillating vFar lBack vNear lNear vBack f, lFar)"
    using resolveDirective_InstrImm[of "oscillating vFar lBack vNear lNear vBack f" 548 LDAC
        "0x1000000" oscLabels "atBack + of_nat (immSize vBack) + 3832"]
    by (simp add: osc_nth immSize_pads lFar_def)
  have t12: "foldE ?R [0..<549] (?P0, 0) = Inr (oscillating vFar lBack vNear lNear vBack f, lFar)"
    by (rule seg_step[OF t11 r12]) simp_all
  have r13: "?R (oscillating vFar lBack vNear lNear vBack f, lFar) 549 =
      Inr (oscillating vFar lBack vNear lNear vBack lFar, lFar)"
    using resolveDirective_Label[of "oscillating vFar lBack vNear lNear vBack f" 549 "''far''" f
        oscLabels lFar]
    by (simp add: osc_nth osc_length osc_update)
  have t13: "foldE ?R [0..<550] (?P0, 0) =
      Inr (oscillating vFar lBack vNear lNear vBack lFar, lFar)"
    by (rule seg_step[OF t12 r13]) simp_all
  have "oscNext d f = (vFar, lBack, vNear, lNear, vBack, lFar)"
    unfolding oscNext_def Let_def vFar_def lBack_def vNear_def lNear_def atBack_def vBack_def
      lFar_def ..
  with t13 show ?thesis
    by (simp add: resolvePass_def osc_length)
qed

lemma oscNext_values:
  "oscNext 0 0 = (- 255, 255, - 258, 274, - 259, 4353)"
  "oscNext 274 4353 = (4096, 257, 15, 274, - 256, 4352)"
  "oscNext 274 4352 = (4095, 256, 16, 274, - 258, 4353)"
  by code_simp+

lemma addLabel_pad8: "foldE addLabel (pad8 n) (m, i) = Inr (m, i + n)"
  by (induction n arbitrary: i) (simp_all add: pad8_def addLabel_def)

lemma createLabelMap_oscillating:
  "createLabelMap (oscillating a b c d e f) = Inr oscLabels"
  by (simp add: createLabelMap_def oscillating_def foldE_append addLabel_pad8 addLabel_def
      oscLabels_def)

lemma lookupLabel_oscillating:
  "lookupLabel oscLabels (oscillating a b c d e f) ''far'' = Inr f"
  "lookupLabel oscLabels (oscillating a b c d e f) ''back'' = Inr b"
  "lookupLabel oscLabels (oscillating a b c d e f) ''near'' = Inr d"
  by (simp_all add: lookupLabel_def oscLabels_def labelValueAt_def osc_length osc_nth)

lemma list_all_oscillating:
  "list_all P (oscillating a b c d e f) \<longleftrightarrow>
     P (InstrImm LDAC 0x10000000) \<and> P (InstrImm LDAC 0x10000) \<and> P (InstrImm LDAC 0x1000000) \<and>
     P (InstrLabel BR ''far'' a) \<and> P (Label ''back'' b) \<and> P (InstrLabel BR ''near'' c) \<and>
     P (Label ''near'' d) \<and> P (InstrLabel BR ''back'' e) \<and> P (Label ''far'' f)"
  by (auto simp: oscillating_def pad8_def list_all_iff)

lemma labelsResolve_oscillating: "labelsResolve oscLabels (oscillating a b c d e f)"
  by (simp add: labelsResolve_def list_all_oscillating lookupLabel_oscillating)

text \<open>
  The passes from the program as parsed: the first gives the total size 4353, and
  from then on the sizes 4352 and 4353 alternate, with the branch to \<^verbatim>\<open>far\<close>
  4 and 3 bytes long, the branch to \<^verbatim>\<open>near\<close> 1 and 2, the branch to
  \<^verbatim>\<open>back\<close> 2 and 3.
\<close>

lemma resolveLabels_oscillating: "resolveLabels oscLabels (oscillatingProgram a b c e) = None"
proof -
  let ?S1 = "oscillating (- 255) 255 (- 258) 274 (- 259) 4353"
  let ?S2 = "oscillating 4096 257 15 274 (- 256) 4352"
  let ?S3 = "oscillating 4095 256 16 274 (- 258) 4353"
  have p0: "resolvePass oscLabels (oscillatingProgram a b c e) = Inr (?S1, 4353)"
    by (simp add: oscillatingProgram_def resolvePass_oscillating oscNext_values)
  have p1: "resolvePass oscLabels ?S1 = Inr (?S2, 4352)"
    by (simp add: resolvePass_oscillating oscNext_values)
  have p2: "resolvePass oscLabels ?S2 = Inr (?S3, 4353)"
    by (simp add: resolvePass_oscillating oscNext_values)
  have p3: "resolvePass oscLabels ?S3 = Inr (?S2, 4352)"
    by (simp add: resolvePass_oscillating oscNext_values)
  have c: "resolveLoop oscLabels ?S2 4353 4352 = None"
    by (rule resolveLoop_cycle[OF p2 p3]) simp
  have "resolveLabels oscLabels (oscillatingProgram a b c e) = resolveLoop oscLabels ?S1 0 4353"
    unfolding resolveLabels_def by (subst resolveLoop.simps) (simp add: p0)
  also have "\<dots> = resolveLoop oscLabels ?S2 4353 4352"
    by (subst resolveLoop.simps) (simp add: p1)
  finally show ?thesis using c by simp
qed

text \<open>
  C7. For every directive list in which all label references resolve, the loop of
  \<^verbatim>\<open>resolveLabels\<close> is claimed to terminate. It does not: in
  \<open>oscillatingProgram\<close> every reference resolves, and the loop never returns,
  because the total size alternates between 4352 and 4353 and the loop stops only
  when two passes in a row give the same size.
\<close>

theorem layout_loop_diverges:
  "createLabelMap (oscillatingProgram vFar lBack vNear vBack) = Inr oscLabels \<and>
   labelsResolve oscLabels (oscillatingProgram vFar lBack vNear vBack) \<and>
   resolveLabels oscLabels (oscillatingProgram vFar lBack vNear vBack) = None"
  using resolveLabels_oscillating[of vFar lBack vNear vBack]
  by (simp add: oscillatingProgram_def createLabelMap_oscillating labelsResolve_oscillating)

end
